theory Spec2Isabelle
  imports Main "HOL-Library.Sublist" "HOL-Library.Multiset" "HOL-Library.Code_Target_Nat"
begin

section \<open>Data model (models.py)\<close>

text \<open>
  The draw simulator of \<^verbatim>\<open>Python/Sorteio_Jogos\<close>. A \<^verbatim>\<open>Club\<close> object carries its static
  attributes and two mutable lists of references to other clubs. Every use the program
  makes of such a reference goes through \<^verbatim>\<open>Club.__eq__\<close> / \<^verbatim>\<open>Club.__hash__\<close>, which
  compare the pair (name, country), or reads \<^verbatim>\<open>.name\<close> / \<^verbatim>\<open>.country\<close>. A reference held
  in an opponent list is therefore modelled by that pair; the club objects themselves
  are the positions of the list \<^verbatim>\<open>self.clubs\<close>. The informational \<^verbatim>\<open>coefficient\<close> and
  the per-club copy of the competition are never read by the draw and are left out.
\<close>

datatype competition = CHAMPIONS_LEAGUE | EUROPA_LEAGUE | CONFERENCE_LEAGUE

type_synonym club_ref = "string \<times> string"

record club =
  name :: string
  country :: string
  pot :: int
  home_opponents :: "club_ref list"
  away_opponents :: "club_ref list"

text \<open>What \<^verbatim>\<open>__eq__\<close> and \<^verbatim>\<open>__hash__\<close> look at.\<close>

definition ref_of :: "club \<Rightarrow> club_ref" where
  "ref_of c = (name c, country c)"

definition all_opponents :: "club \<Rightarrow> club_ref list" where
  "all_opponents c = home_opponents c @ away_opponents c"

text \<open>
  \<^verbatim>\<open>opponent_countries\<close> builds a dict country -> count by one pass over all opponents;
  \<^verbatim>\<open>get0\<close> is \<^verbatim>\<open>dict.get(key, 0)\<close>.
\<close>

definition get0 :: "('k \<rightharpoonup> nat) \<Rightarrow> 'k \<Rightarrow> nat" where
  "get0 m k = (case m k of None \<Rightarrow> 0 | Some n \<Rightarrow> n)"

definition opponent_countries :: "club \<Rightarrow> (string \<rightharpoonup> nat)" where
  "opponent_countries c =
     foldl (\<lambda>countries opp. countries(snd opp \<mapsto> get0 countries (snd opp) + 1))
       Map.empty (all_opponents c)"

definition is_complete :: "club \<Rightarrow> bool" where
  "is_complete c \<longleftrightarrow> length (home_opponents c) = 4 \<and> length (away_opponents c) = 4"

definition needs_home :: "club \<Rightarrow> int" where
  "needs_home c = 4 - int (length (home_opponents c))"

definition needs_away :: "club \<Rightarrow> int" where
  "needs_away c = 4 - int (length (away_opponents c))"

definition reset :: "club \<Rightarrow> club" where
  "reset c = c\<lparr>home_opponents := [], away_opponents := []\<rparr>"

record fixture =
  home :: club_ref
  away :: club_ref

record draw_result =
  dr_competition :: competition
  dr_clubs :: "club list"
  fixtures :: "fixture list"
  is_valid :: bool
  dr_backtrack_count :: nat

section \<open>Constraint engine (constraints.py)\<close>

record constraints =
  max_same_country :: nat
  matches_per_team :: nat
  home_matches :: nat
  away_matches :: nat

definition ChampionsLeagueConstraints :: constraints where
  "ChampionsLeagueConstraints =
     \<lparr>max_same_country = 2, matches_per_team = 8, home_matches = 4, away_matches = 4\<rparr>"

definition EuropaLeagueConstraints :: constraints where
  "EuropaLeagueConstraints =
     \<lparr>max_same_country = 2, matches_per_team = 8, home_matches = 4, away_matches = 4\<rparr>"

definition ConferenceLeagueConstraints :: constraints where
  "ConferenceLeagueConstraints =
     \<lparr>max_same_country = 2, matches_per_team = 6, home_matches = 3, away_matches = 3\<rparr>"

text \<open>The reasons \<^verbatim>\<open>can_pair\<close> formats into its message, in the order it checks them.\<close>

datatype reason =
    CannotPlaySelf
  | SameCountry string
  | AlreadyOpponents
  | CountryLimit string string
  | HomeFull string
  | AwayFull string

definition can_pair :: "constraints \<Rightarrow> club \<Rightarrow> club \<Rightarrow> bool \<Rightarrow> bool \<times> reason option" where
  "can_pair k club1 club2 as_home =
     (if ref_of club1 = ref_of club2 then (False, Some CannotPlaySelf)
      else if country club1 = country club2 then (False, Some (SameCountry (country club1)))
      else if ref_of club2 \<in> set (all_opponents club1) then (False, Some AlreadyOpponents)
      else
        let c1_from_c2_country = get0 (opponent_countries club1) (country club2);
            c2_from_c1_country = get0 (opponent_countries club2) (country club1)
        in
          if c1_from_c2_country \<ge> max_same_country k
            then (False, Some (CountryLimit (name club1) (country club2)))
          else if c2_from_c1_country \<ge> max_same_country k
            then (False, Some (CountryLimit (name club2) (country club1)))
          else if as_home then
            (if length (home_opponents club1) \<ge> home_matches k
               then (False, Some (HomeFull (name club1)))
             else if length (away_opponents club2) \<ge> away_matches k
               then (False, Some (AwayFull (name club2)))
             else (True, None))
          else
            (if length (away_opponents club1) \<ge> away_matches k
               then (False, Some (AwayFull (name club1)))
             else if length (home_opponents club2) \<ge> home_matches k
               then (False, Some (HomeFull (name club2)))
             else (True, None)))"

text \<open>\<^verbatim>\<open>DrawConstraints.get_valid_opponents\<close>: one call of \<^verbatim>\<open>can_pair\<close> per candidate.\<close>

definition get_valid_opponents :: "constraints \<Rightarrow> club \<Rightarrow> club list \<Rightarrow> bool \<Rightarrow> club list" where
  "get_valid_opponents k c candidates as_home =
     filter (\<lambda>candidate. fst (can_pair k c candidate as_home)) candidates"

section \<open>The simulator's state (draw_simulator.py)\<close>

text \<open>
  \<^verbatim>\<open>random_state\<close> stands for the state of the module-level generator of \<^verbatim>\<open>random\<close>: the
  values its next calls of \<^verbatim>\<open>_randbelow\<close> will yield (each reduced modulo the bound
  asked for; 0 once the list is used up). \<^verbatim>\<open>events\<close> is a history variable that is not
  in the source: it records every mutation of an opponent list the solver performs.
\<close>

datatype event = Assigned nat nat bool | Undone nat nat bool

record simulator =
  competition :: competition
  constraints :: constraints
  clubs :: "club list"
  backtrack_count :: nat
  max_backtrack :: nat
  opponent_count_cache :: "(string \<times> nat) list"
  random_state :: "nat list"
  events :: "event list"

subsection \<open>The memoized counter and its invalidation\<close>

fun str_nat :: "nat \<Rightarrow> string" where
  "str_nat n =
     (if n < 10 then [''0123456789'' ! n]
      else str_nat (n div 10) @ [''0123456789'' ! (n mod 10)])"

declare str_nat.simps [simp del]

definition cache_key :: "club \<Rightarrow> string" where
  "cache_key c =
     name c @ ''_'' @ str_nat (length (home_opponents c)) @ ''_'' @
     str_nat (length (away_opponents c))"

text \<open>\<^verbatim>\<open>_count_valid_opponents\<close>: the loop over \<^verbatim>\<open>all_clubs\<close>, one summand per club.\<close>

fun count_valid_opponents :: "constraints \<Rightarrow> club \<Rightarrow> club list \<Rightarrow> nat" where
  "count_valid_opponents k c [] = 0"
| "count_valid_opponents k c (other # rest) =
     (if ref_of other = ref_of c \<or> is_complete other then 0
      else (if needs_home c > 0 \<and> fst (can_pair k c other True) then 1 else 0) +
           (if needs_away c > 0 \<and> fst (can_pair k c other False) then 1 else 0)) +
     count_valid_opponents k c rest"

text \<open>
  \<^verbatim>\<open>_invalidate_cache\<close>: every key that contains the club's name as a substring is
  deleted (Python's \<^verbatim>\<open>club_name in k\<close> on strings).
\<close>

definition invalidate_cache :: "string \<Rightarrow> simulator \<Rightarrow> simulator" where
  "invalidate_cache club_name s =
     s\<lparr>opponent_count_cache :=
         filter (\<lambda>(k, v). \<not> sublist club_name k) (opponent_count_cache s)\<rparr>"

subsection \<open>Random shuffles\<close>

text \<open>
  \<^verbatim>\<open>random.shuffle\<close> of the standard library: for i from the last index down to 1, draw
  j below i + 1 and exchange the entries at i and j.
\<close>

fun randbelow :: "nat \<Rightarrow> nat list \<Rightarrow> nat \<times> nat list" where
  "randbelow n [] = (0, [])"
| "randbelow n (r # g) = (r mod n, g)"

fun shuffle_loop :: "nat \<Rightarrow> 'a list \<Rightarrow> nat list \<Rightarrow> 'a list \<times> nat list" where
  "shuffle_loop 0 x g = (x, g)"
| "shuffle_loop (Suc i) x g =
     (let (j, g') = randbelow (Suc i + 1) g
      in shuffle_loop i (x[Suc i := x ! j, j := x ! Suc i]) g')"

definition shuffle :: "'a list \<Rightarrow> nat list \<Rightarrow> 'a list \<times> nat list" where
  "shuffle x g = shuffle_loop (length x - 1) x g"

subsection \<open>Counting and filtering candidates\<close>

text \<open>
  The solver works on the list \<^verbatim>\<open>clubs\<close> of club objects in shuffled order; here
  \<^verbatim>\<open>order\<close> lists their positions in \<^verbatim>\<open>self.clubs\<close>, and \<^verbatim>\<open>clubs_in order s\<close> is the list
  of their current states.
\<close>

definition clubs_in :: "nat list \<Rightarrow> simulator \<Rightarrow> club list" where
  "clubs_in order s = map (\<lambda>i. clubs s ! i) order"

definition count_valid_opponents_cached :: "nat list \<Rightarrow> nat \<Rightarrow> simulator \<Rightarrow> nat \<times> simulator" where
  "count_valid_opponents_cached order i s =
     (let c = clubs s ! i; cache_key = cache_key c in
      case map_of (opponent_count_cache s) cache_key of
        Some v \<Rightarrow> (v, s)
      | None \<Rightarrow>
          let count = count_valid_opponents (constraints s) c (clubs_in order s)
          in (count, s\<lparr>opponent_count_cache := opponent_count_cache s @ [(cache_key, count)]\<rparr>))"

text \<open>The counter of the comparison solver: always the uncached count, no cache access.\<close>

definition count_valid_opponents_direct :: "nat list \<Rightarrow> nat \<Rightarrow> simulator \<Rightarrow> nat \<times> simulator" where
  "count_valid_opponents_direct order i s =
     (count_valid_opponents (constraints s) (clubs s ! i) (clubs_in order s), s)"

text \<open>\<^verbatim>\<open>UEFADrawSimulator._get_valid_opponents\<close>, returning positions.\<close>

definition sim_get_valid_opponents :: "nat list \<Rightarrow> nat \<Rightarrow> bool \<Rightarrow> simulator \<Rightarrow> nat list" where
  "sim_get_valid_opponents order i as_home s =
     filter (\<lambda>j.
        let c = clubs s ! i; other = clubs s ! j in
        \<not> (ref_of other = ref_of c \<or> is_complete other) \<and>
        fst (can_pair (constraints s) c other as_home) \<and>
        fst (can_pair (constraints s) other c (\<not> as_home))) order"

definition get_valid_opponents_sorted ::
  "nat list \<Rightarrow> nat \<Rightarrow> bool \<Rightarrow> simulator \<Rightarrow> nat list \<times> simulator" where
  "get_valid_opponents_sorted order i as_home s =
     (let valid = sim_get_valid_opponents order i as_home s;
          (valid, g) = shuffle valid (random_state s);
          valid = sort_key (\<lambda>j. count_valid_opponents (constraints s) (clubs s ! j)
                                   (clubs_in order s)) valid
      in (valid, s\<lparr>random_state := g\<rparr>))"

subsection \<open>Assign and undo\<close>

datatype py_error = RecursionError | ValueError

text \<open>\<^verbatim>\<open>list.remove\<close> deletes the first equal entry and raises when there is none.\<close>

definition list_remove :: "'a \<Rightarrow> 'a list \<Rightarrow> py_error + 'a list" where
  "list_remove x xs = (if x \<in> set xs then Inr (remove1 x xs) else Inl ValueError)"

definition make_assignment :: "nat \<Rightarrow> nat \<Rightarrow> bool \<Rightarrow> simulator \<Rightarrow> simulator" where
  "make_assignment i j as_home s =
     (let cs = clubs s;
          cs1 = (if as_home
                 then cs[i := (cs ! i)\<lparr>home_opponents := home_opponents (cs ! i) @ [ref_of (cs ! j)]\<rparr>]
                 else cs[i := (cs ! i)\<lparr>away_opponents := away_opponents (cs ! i) @ [ref_of (cs ! j)]\<rparr>]);
          cs2 = (if as_home
                 then cs1[j := (cs1 ! j)\<lparr>away_opponents := away_opponents (cs1 ! j) @ [ref_of (cs1 ! i)]\<rparr>]
                 else cs1[j := (cs1 ! j)\<lparr>home_opponents := home_opponents (cs1 ! j) @ [ref_of (cs1 ! i)]\<rparr>]);
          s1 = s\<lparr>clubs := cs2, events := events s @ [Assigned i j as_home]\<rparr>
      in invalidate_cache (name (cs2 ! j)) (invalidate_cache (name (cs2 ! i)) s1))"

definition undo_assignment :: "nat \<Rightarrow> nat \<Rightarrow> bool \<Rightarrow> simulator \<Rightarrow> py_error + simulator" where
  "undo_assignment i j as_home s =
     (let s1 = s\<lparr>backtrack_count := backtrack_count s + 1\<rparr>;
          cs = clubs s1
      in
        case (if as_home then list_remove (ref_of (cs ! j)) (home_opponents (cs ! i))
              else list_remove (ref_of (cs ! j)) (away_opponents (cs ! i))) of
          Inl e \<Rightarrow> Inl e
        | Inr l1 \<Rightarrow>
            let cs1 = (if as_home then cs[i := (cs ! i)\<lparr>home_opponents := l1\<rparr>]
                       else cs[i := (cs ! i)\<lparr>away_opponents := l1\<rparr>])
            in
              case (if as_home then list_remove (ref_of (cs1 ! i)) (away_opponents (cs1 ! j))
                    else list_remove (ref_of (cs1 ! i)) (home_opponents (cs1 ! j))) of
                Inl e \<Rightarrow> Inl e
              | Inr l2 \<Rightarrow>
                  let cs2 = (if as_home then cs1[j := (cs1 ! j)\<lparr>away_opponents := l2\<rparr>]
                             else cs1[j := (cs1 ! j)\<lparr>home_opponents := l2\<rparr>]);
                      s2 = s1\<lparr>clubs := cs2, events := events s1 @ [Undone i j as_home]\<rparr>
                  in Inr (invalidate_cache (name (cs2 ! j))
                            (invalidate_cache (name (cs2 ! i)) s2)))"

subsection \<open>The backtracking search\<close>

text \<open>
  The solver is written once over the counter it uses for forward checking and for the
  MRV choice: the program passes \<^verbatim>\<open>_count_valid_opponents_cached\<close>.
\<close>

type_synonym counter = "nat list \<Rightarrow> nat \<Rightarrow> simulator \<Rightarrow> nat \<times> simulator"

text \<open>Forward checking: stop at the first incomplete club with no valid option.\<close>

fun forward_check :: "counter \<Rightarrow> nat list \<Rightarrow> nat list \<Rightarrow> simulator \<Rightarrow> bool \<times> simulator" where
  "forward_check cnt order [] s = (True, s)"
| "forward_check cnt order (i # rest) s =
     (let (valid_count, s') = cnt order i s
      in if valid_count = 0 then (False, s') else forward_check cnt order rest s')"

text \<open>\<^verbatim>\<open>min(incomplete, key=...)\<close>: the first club whose key is minimal.\<close>

fun min_from :: "counter \<Rightarrow> nat list \<Rightarrow> nat \<Rightarrow> nat \<Rightarrow> nat list \<Rightarrow> simulator \<Rightarrow> nat \<times> simulator" where
  "min_from cnt order best best_v [] s = (best, s)"
| "min_from cnt order best best_v (i # rest) s =
     (let (v, s') = cnt order i s
      in if v < best_v then min_from cnt order i v rest s'
         else min_from cnt order best best_v rest s')"

definition min_by_count :: "counter \<Rightarrow> nat list \<Rightarrow> nat \<Rightarrow> nat list \<Rightarrow> simulator \<Rightarrow> nat \<times> simulator" where
  "min_by_count cnt order i0 rest s =
     (let (v0, s') = cnt order i0 s in min_from cnt order i0 v0 rest s')"

type_synonym search = "simulator \<Rightarrow> py_error + (bool \<times> simulator)"

text \<open>The loop over the candidates of one direction; \<^verbatim>\<open>rec\<close> is the recursive call.\<close>

fun try_candidates :: "search \<Rightarrow> nat \<Rightarrow> bool \<Rightarrow> nat list \<Rightarrow> simulator \<Rightarrow> py_error + (bool \<times> simulator)" where
  "try_candidates rec i as_home [] s = Inr (False, s)"
| "try_candidates rec i as_home (j # rest) s =
     (case rec (make_assignment i j as_home s) of
        Inl e \<Rightarrow> Inl e
      | Inr (True, s') \<Rightarrow> Inr (True, s')
      | Inr (False, s') \<Rightarrow>
          (case undo_assignment i j as_home s' of
             Inl e \<Rightarrow> Inl e
           | Inr s'' \<Rightarrow> try_candidates rec i as_home rest s''))"

text \<open>The loop over the directions; the candidates are computed when a direction starts.\<close>

fun try_directions :: "search \<Rightarrow> nat list \<Rightarrow> nat \<Rightarrow> bool list \<Rightarrow> simulator \<Rightarrow> py_error + (bool \<times> simulator)" where
  "try_directions rec order i [] s = Inr (False, s)"
| "try_directions rec order i (as_home # rest) s =
     (let (candidates, s1) = get_valid_opponents_sorted order i as_home s
      in case try_candidates rec i as_home candidates s1 of
           Inl e \<Rightarrow> Inl e
         | Inr (True, s2) \<Rightarrow> Inr (True, s2)
         | Inr (False, s2) \<Rightarrow> try_directions rec order i rest s2)"

text \<open>
  \<^verbatim>\<open>_assign_opponents_optimized\<close>. The first argument bounds the depth of the recursion,
  as the interpreter's recursion limit does; running out of it is \<^verbatim>\<open>RecursionError\<close>.
\<close>

fun solver :: "counter \<Rightarrow> nat \<Rightarrow> nat list \<Rightarrow> simulator \<Rightarrow> py_error + (bool \<times> simulator)" where
  "solver cnt 0 order s = Inl RecursionError"
| "solver cnt (Suc depth) order s =
     (if backtrack_count s > max_backtrack s then Inr (False, s)
      else
        case filter (\<lambda>i. \<not> is_complete (clubs s ! i)) order of
          [] \<Rightarrow> Inr (True, s)
        | i0 # rest \<Rightarrow>
            (case forward_check cnt order (i0 # rest) s of
               (False, s1) \<Rightarrow> Inr (False, s1)
             | (True, s1) \<Rightarrow>
                 let (i, s2) = min_by_count cnt order i0 rest s1;
                     needs_home = needs_home (clubs s2 ! i) > 0;
                     needs_away = needs_away (clubs s2 ! i) > 0
                 in
                   if \<not> needs_home \<and> \<not> needs_away then solver cnt depth order s2
                   else
                     try_directions (solver cnt depth order) order i
                       ((if needs_home then [True] else []) @
                        (if needs_away then [False] else [])) s2))"

definition assign_opponents_optimized :: "nat \<Rightarrow> nat list \<Rightarrow> simulator \<Rightarrow> py_error + (bool \<times> simulator)" where
  "assign_opponents_optimized = solver count_valid_opponents_cached"

definition assign_opponents_uncached :: "nat \<Rightarrow> nat list \<Rightarrow> simulator \<Rightarrow> py_error + (bool \<times> simulator)" where
  "assign_opponents_uncached = solver count_valid_opponents_direct"

text \<open>Shuffle the clubs within the pots 1 to 4, in pot order.\<close>

fun shuffle_pots :: "int list \<Rightarrow> club list \<Rightarrow> nat list \<Rightarrow> nat list \<Rightarrow> nat list \<times> nat list" where
  "shuffle_pots [] cs shuffled g = (shuffled, g)"
| "shuffle_pots (p # ps) cs shuffled g =
     (let pot_clubs = filter (\<lambda>i. pot (cs ! i) = p) [0..<length cs];
          (pot_clubs, g') = shuffle pot_clubs g
      in shuffle_pots ps cs (shuffled @ pot_clubs) g')"

definition draw_with_backtracking ::
  "counter \<Rightarrow> nat \<Rightarrow> simulator \<Rightarrow> py_error + (bool \<times> simulator)" where
  "draw_with_backtracking cnt depth s =
     (let (shuffled, g) = shuffle_pots [1, 2, 3, 4] (clubs s) [] (random_state s)
      in solver cnt depth shuffled (s\<lparr>random_state := g\<rparr>))"

definition draw_with_backtracking_optimized :: "nat \<Rightarrow> simulator \<Rightarrow> py_error + (bool \<times> simulator)" where
  "draw_with_backtracking_optimized = draw_with_backtracking count_valid_opponents_cached"

section \<open>Result assembler\<close>

text \<open>
  \<^verbatim>\<open>_generate_fixtures\<close>: one pass over the clubs and their home lists; \<^verbatim>\<open>seen\<close> holds
  the pairs (home name, away name) already emitted.
\<close>

fun fixtures_of_club ::
  "club \<Rightarrow> club_ref list \<Rightarrow> fixture list \<times> (string \<times> string) set \<Rightarrow>
   fixture list \<times> (string \<times> string) set" where
  "fixtures_of_club c [] acc = acc"
| "fixtures_of_club c (opp # opps) (fs, seen) =
     (let key = (name c, fst opp) in
      if key \<notin> seen
        then fixtures_of_club c opps (fs @ [\<lparr>home = ref_of c, away = opp\<rparr>], insert key seen)
        else fixtures_of_club c opps (fs, seen))"

fun fixtures_loop ::
  "club list \<Rightarrow> fixture list \<times> (string \<times> string) set \<Rightarrow>
   fixture list \<times> (string \<times> string) set" where
  "fixtures_loop [] acc = acc"
| "fixtures_loop (c # cs) acc = fixtures_loop cs (fixtures_of_club c (home_opponents c) acc)"

definition generate_fixtures :: "club list \<Rightarrow> fixture list" where
  "generate_fixtures cs = fst (fixtures_loop cs ([], {}))"

section \<open>Loading clubs and the draw\<close>

record club_data =
  cd_name :: string
  cd_country :: string
  cd_pot :: "int option"

definition mk :: "string \<Rightarrow> string \<Rightarrow> int \<Rightarrow> club_data" where
  "mk n c p = \<lparr>cd_name = n, cd_country = c, cd_pot = Some p\<rparr>"

definition get_default_clubs :: "club_data list" where
  "get_default_clubs =
    [mk ''Real Madrid'' ''ESP'' 1, mk ''Manchester City'' ''ENG'' 1,
     mk ''Bayern Munich'' ''GER'' 1, mk ''PSG'' ''FRA'' 1, mk ''Liverpool'' ''ENG'' 1,
     mk ''Inter Milan'' ''ITA'' 1, mk ''Borussia Dortmund'' ''GER'' 1,
     mk ''Barcelona'' ''ESP'' 1, mk ''Leverkusen'' ''GER'' 1,
     mk ''Atletico Madrid'' ''ESP'' 2, mk ''Juventus'' ''ITA'' 2, mk ''Benfica'' ''POR'' 2,
     mk ''Arsenal'' ''ENG'' 2, mk ''Club Brugge'' ''BEL'' 2, mk ''Shakhtar'' ''UKR'' 2,
     mk ''AC Milan'' ''ITA'' 2, mk ''Atalanta'' ''ITA'' 2, mk ''Sporting CP'' ''POR'' 2,
     mk ''FC Porto'' ''POR'' 3, mk ''Feyenoord'' ''NED'' 3, mk ''PSV'' ''NED'' 3,
     mk ''Celtic'' ''SCO'' 3, mk ''Monaco'' ''FRA'' 3, mk ''Aston Villa'' ''ENG'' 3,
     mk ''Bologna'' ''ITA'' 3, mk ''Lille'' ''FRA'' 3, mk ''Girona'' ''ESP'' 3,
     mk ''Stuttgart'' ''GER'' 4, mk ''Sturm Graz'' ''AUT'' 4, mk ''Brest'' ''FRA'' 4,
     mk ''Salzburg'' ''AUT'' 4, mk ''Red Star'' ''SRB'' 4, mk ''Young Boys'' ''SUI'' 4,
     mk ''Dinamo Zagreb'' ''CRO'' 4, mk ''Sparta Prague'' ''CZE'' 4,
     mk ''Slovan Bratislava'' ''SVK'' 4]"

definition new_club :: "club_data \<Rightarrow> club" where
  "new_club d =
     \<lparr>name = cd_name d, country = cd_country d,
      pot = (case cd_pot d of None \<Rightarrow> 1 | Some p \<Rightarrow> p),
      home_opponents = [], away_opponents = []\<rparr>"

definition load_clubs :: "club_data list option \<Rightarrow> simulator \<Rightarrow> simulator" where
  "load_clubs data s =
     s\<lparr>clubs := map new_club (case data of None \<Rightarrow> get_default_clubs | Some d \<Rightarrow> d),
       opponent_count_cache := []\<rparr>"

text \<open>
  \<^verbatim>\<open>__init__\<close> after its seeding lines: the constraint profile follows the competition;
  \<^verbatim>\<open>g\<close> is the state of the generator at that point.
\<close>

definition constraints_for :: "competition \<Rightarrow> constraints" where
  "constraints_for league =
     (case league of
        CHAMPIONS_LEAGUE \<Rightarrow> ChampionsLeagueConstraints
      | EUROPA_LEAGUE \<Rightarrow> EuropaLeagueConstraints
      | CONFERENCE_LEAGUE \<Rightarrow> ConferenceLeagueConstraints)"

definition new_simulator :: "competition \<Rightarrow> nat list \<Rightarrow> simulator" where
  "new_simulator league g =
     \<lparr>competition = league, constraints = constraints_for league, clubs = [],
      backtrack_count = 0, max_backtrack = 50000, opponent_count_cache = [],
      random_state = g, events = []\<rparr>"

text \<open>
  The whole constructor \<^verbatim>\<open>UEFADrawSimulator(competition, seed)\<close>. The generator is the
  module-level one of \<^verbatim>\<open>random\<close>, shared by the whole process: \<^verbatim>\<open>g\<close> is its state when the
  constructor is called, whatever used it before. \<^verbatim>\<open>if seed is not None: random.seed(seed)\<close>
  replaces that state by the one the library computes from the seed; the library's seeding
  algorithm is the parameter \<^verbatim>\<open>prng\<close>.
\<close>

definition UEFADrawSimulator ::
  "(int \<Rightarrow> nat list) \<Rightarrow> competition \<Rightarrow> int option \<Rightarrow> nat list \<Rightarrow> simulator" where
  "UEFADrawSimulator prng league seed g =
     new_simulator league (case seed of None \<Rightarrow> g | Some n \<Rightarrow> prng n)"

text \<open>
  \<^verbatim>\<open>draw\<close>: load the default clubs when there are none, reset every club, the counter and
  the cache, run the search, and assemble the result.
\<close>

definition prepare_draw :: "simulator \<Rightarrow> simulator" where
  "prepare_draw sim =
     (let s0 = (if clubs sim = [] then load_clubs None sim else sim)
      in s0\<lparr>clubs := map reset (clubs s0), backtrack_count := 0,
            opponent_count_cache := [], events := []\<rparr>)"

definition draw_with :: "counter \<Rightarrow> nat \<Rightarrow> simulator \<Rightarrow> py_error + (draw_result \<times> simulator)" where
  "draw_with cnt depth sim =
     (case draw_with_backtracking cnt depth (prepare_draw sim) of
        Inl e \<Rightarrow> Inl e
      | Inr (success, s) \<Rightarrow>
          Inr (\<lparr>dr_competition = competition s, dr_clubs = clubs s,
                fixtures = (if success then generate_fixtures (clubs s) else []),
                is_valid = success, dr_backtrack_count = backtrack_count s\<rparr>, s))"

definition draw :: "nat \<Rightarrow> simulator \<Rightarrow> py_error + (draw_result \<times> simulator)" where
  "draw = draw_with count_valid_opponents_cached"

text \<open>The comparison draw: the same program over the uncached counter.\<close>

definition draw_uncached :: "nat \<Rightarrow> simulator \<Rightarrow> py_error + (draw_result \<times> simulator)" where
  "draw_uncached = draw_with count_valid_opponents_direct"

text \<open>
  One run, as \<^verbatim>\<open>run_single_draw\<close> and the repository's tests perform it: construct the
  simulator with a seed, set the backtrack budget, load the clubs, and call \<^verbatim>\<open>draw\<close>.
  \<^verbatim>\<open>depth\<close> is the interpreter's recursion limit and \<^verbatim>\<open>g\<close> the state of the process-wide
  generator before the constructor.
\<close>

definition run_draw ::
  "(int \<Rightarrow> nat list) \<Rightarrow> competition \<Rightarrow> int option \<Rightarrow> nat \<Rightarrow> club_data list option \<Rightarrow>
   nat \<Rightarrow> nat list \<Rightarrow> py_error + (draw_result \<times> simulator)" where
  "run_draw prng league seed budget data depth g =
     draw depth (load_clubs data ((UEFADrawSimulator prng league seed g)\<lparr>max_backtrack := budget\<rparr>))"

section \<open>Notions used in the statements\<close>


text \<open>
  Appending to, and removing from, the home list (\<^verbatim>\<open>True\<close>) or the away list
  (\<^verbatim>\<open>False\<close>) of one club: what one line of the assign block and of the undo block
  does.
\<close>

definition opponents_at :: "bool \<Rightarrow> club \<Rightarrow> club_ref list" where
  "opponents_at at_home c = (if at_home then home_opponents c else away_opponents c)"

definition add_opponent :: "bool \<Rightarrow> club_ref \<Rightarrow> club \<Rightarrow> club" where
  "add_opponent at_home r c =
     (if at_home then c\<lparr>home_opponents := home_opponents c @ [r]\<rparr>
      else c\<lparr>away_opponents := away_opponents c @ [r]\<rparr>)"

definition drop_opponent :: "bool \<Rightarrow> club_ref \<Rightarrow> club \<Rightarrow> club" where
  "drop_opponent at_home r c =
     (if at_home then c\<lparr>home_opponents := remove1 r (home_opponents c)\<rparr>
      else c\<lparr>away_opponents := remove1 r (away_opponents c)\<rparr>)"

text \<open>The invariant of one entrant under a constraint profile.\<close>

definition entrant_inv :: "constraints \<Rightarrow> club \<Rightarrow> bool" where
  "entrant_inv k c \<longleftrightarrow>
     ref_of c \<notin> set (all_opponents c) \<and> distinct (all_opponents c) \<and>
     length (home_opponents c) \<le> home_matches k \<and>
     length (away_opponents c) \<le> away_matches k"

text \<open>
  The states the solver can be in: it starts from empty opponent lists, assigns a club
  one of the candidates \<^verbatim>\<open>_get_valid_opponents\<close> returned for it, and undoes
  assignments.
\<close>

inductive reachable :: "nat list \<Rightarrow> simulator \<Rightarrow> bool" for order :: "nat list" where
  start: "\<forall>c \<in> set (clubs s). home_opponents c = [] \<and> away_opponents c = [] \<Longrightarrow>
          reachable order s"
| assign: "reachable order s \<Longrightarrow> i < length (clubs s) \<Longrightarrow> j < length (clubs s) \<Longrightarrow>
           j \<in> set (sim_get_valid_opponents order i as_home s) \<Longrightarrow>
           reachable order (make_assignment i j as_home s)"
| undo: "reachable order s \<Longrightarrow> i < length (clubs s) \<Longrightarrow> j < length (clubs s) \<Longrightarrow>
         i \<noteq> j \<Longrightarrow> undo_assignment i j as_home s = Inr s' \<Longrightarrow> reachable order s'"

text \<open>Small concrete inputs.\<close>

definition two_clubs :: simulator where
  "two_clubs =
     load_clubs (Some [mk ''A'' ''X'' 1, mk ''B'' ''Y'' 2]) (new_simulator CHAMPIONS_LEAGUE [])"

text \<open>
  The one-sided state of the repository's test \<^verbatim>\<open>test_already_opponents_blocked\<close>:
  \<^verbatim>\<open>Test\<close> lists \<^verbatim>\<open>Opp\<close> at home, \<^verbatim>\<open>Opp\<close> lists nobody.
\<close>

definition one_sided_opp :: club where
  "one_sided_opp =
     \<lparr>name = ''Opp'', country = ''OPP'', pot = 1, home_opponents = [], away_opponents = []\<rparr>"

definition one_sided_test :: club where
  "one_sided_test =
     \<lparr>name = ''Test'', country = ''TST'', pot = 1,
      home_opponents = [(''Opp'', ''OPP'')], away_opponents = []\<rparr>"


text \<open>Three clubs, the name of the first a substring of the name of the third.\<close>

definition milan_clubs :: simulator where
  "milan_clubs =
     load_clubs (Some [mk ''Milan'' ''ITA'' 1, mk ''Ajax'' ''NED'' 2, mk ''AC Milan'' ''ITA'' 3])
       (new_simulator CHAMPIONS_LEAGUE [])"

definition milan_checked :: simulator where
  "milan_checked =
     snd (forward_check count_valid_opponents_cached [0, 1, 2] [0, 1, 2] milan_clubs)"

text \<open>The home and away list of every club, in the order of \<^verbatim>\<open>self.clubs\<close>.\<close>

definition opponent_lists :: "club list \<Rightarrow> (club_ref list \<times> club_ref list) list" where
  "opponent_lists cs = map (\<lambda>c. (home_opponents c, away_opponents c)) cs"

text \<open>
  Two clubs of one country whose lists hold earlier opponents, neither club in a list of the
  other.
\<close>

definition listed_clubs :: simulator where
  "listed_clubs =
     (new_simulator CHAMPIONS_LEAGUE [])\<lparr>clubs :=
        [\<lparr>name = ''A'', country = ''X'', pot = 1,
          home_opponents = [(''C'', ''Z''), (''D'', ''W'')], away_opponents = [(''E'', ''V'')]\<rparr>,
         \<lparr>name = ''B'', country = ''X'', pot = 2,
          home_opponents = [(''D'', ''W''), (''C'', ''Z'')], away_opponents = [(''F'', ''U'')]\<rparr>]\<rparr>"

text \<open>Two clubs that are opponents already: A lists B at home, and B lists A away.\<close>

definition already_listed :: simulator where
  "already_listed =
     (new_simulator CHAMPIONS_LEAGUE [])\<lparr>clubs :=
        [\<lparr>name = ''A'', country = ''X'', pot = 1,
          home_opponents = [(''B'', ''Y''), (''C'', ''Z'')], away_opponents = []\<rparr>,
         \<lparr>name = ''B'', country = ''Y'', pot = 2,
          home_opponents = [], away_opponents = [(''A'', ''X''), (''D'', ''W'')]\<rparr>]\<rparr>"

text \<open>The clubs a run draws: the default clubs when none, or an empty list, is loaded.\<close>

definition entrants :: "club_data list option \<Rightarrow> club_data list" where
  "entrants data =
     (case data of None \<Rightarrow> get_default_clubs
      | Some d \<Rightarrow> if d = [] then get_default_clubs else d)"

text \<open>
  Nine clubs of nine countries, and a seeding algorithm for concrete runs: the stream
  that counts up from the seed.
\<close>

definition nine_clubs :: "club_data list" where
  "nine_clubs =
     [mk ''A'' ''a'' 1, mk ''B'' ''b'' 1, mk ''C'' ''c'' 1, mk ''D'' ''d'' 2, mk ''E'' ''e'' 2,
      mk ''F'' ''f'' 3, mk ''G'' ''g'' 3, mk ''H'' ''h'' 4, mk ''I'' ''i'' 4]"

definition counting_prng :: "int \<Rightarrow> nat list" where
  "counting_prng n = map (\<lambda>k. nat \<bar>n\<bar> + k) [0..<40]"

text \<open>What a caller reads off a run: the success flag and every club's two lists, by name.\<close>

definition pairings ::
  "py_error + (draw_result \<times> simulator) \<Rightarrow> py_error + (bool \<times> (string list \<times> string list) list)" where
  "pairings r =
     map_sum id (\<lambda>(res, s). (is_valid res,
        map (\<lambda>c. (map fst (home_opponents c), map fst (away_opponents c))) (dr_clubs res))) r"

text \<open>The identities of the clubs the solver works on.\<close>

definition refs_in :: "nat list \<Rightarrow> simulator \<Rightarrow> club_ref set" where
  "refs_in order s = (\<lambda>i. ref_of (clubs s ! i)) ` set order"

text \<open>
  The solver's working state is in order: its positions exist, and every club satisfies
  its invariant and lists only clubs of the draw.
\<close>

definition good :: "nat list \<Rightarrow> simulator \<Rightarrow> bool" where
  "good order s \<longleftrightarrow>
     (\<forall>i \<in> set order. i < length (clubs s)) \<and>
     (\<forall>c \<in> set (clubs s). entrant_inv (constraints s) c \<and>
                            set (all_opponents c) \<subseteq> refs_in order s)"

text \<open>The free slots of one club and of all clubs: what bounds the depth of the search.\<close>

definition room :: "constraints \<Rightarrow> club \<Rightarrow> nat" where
  "room k c = (home_matches k - length (home_opponents c)) +
              (away_matches k - length (away_opponents c))"

definition slack :: "simulator \<Rightarrow> nat" where
  "slack s = sum_list (map (room (constraints s)) (clubs s))"

text \<open>
  What a call of the solver leaves behind: on success every club it worked on is
  complete; on failure every opponent list is as it was.
\<close>

definition solved :: "nat list \<Rightarrow> simulator \<Rightarrow> bool \<Rightarrow> simulator \<Rightarrow> bool" where
  "solved order s r s' \<longleftrightarrow>
     constraints s' = constraints s \<and>
     (if r then good order s' \<and> (\<forall>i \<in> set order. is_complete (clubs s' ! i))
      else clubs s' = clubs s)"

text \<open>Profiles under which an incomplete club always still needs a home or an away match.\<close>

definition quota_ok :: "constraints \<Rightarrow> bool" where
  "quota_ok k \<longleftrightarrow>
     home_matches k < 4 \<or> away_matches k < 4 \<or> (home_matches k \<le> 4 \<and> away_matches k \<le> 4)"

text \<open>The undo operations recorded in the history.\<close>

fun is_undone :: "event \<Rightarrow> bool" where
  "is_undone (Undone i j d) = True"
| "is_undone (Assigned i j d) = False"

definition undo_operations :: "simulator \<Rightarrow> nat" where
  "undo_operations s = length (filter is_undone (events s))"

text \<open>The counter and the history moved in step between two states.\<close>

definition balanced :: "simulator \<Rightarrow> simulator \<Rightarrow> bool" where
  "balanced s s' \<longleftrightarrow>
     backtrack_count s' + undo_operations s = backtrack_count s + undo_operations s'"

text \<open>What a caller observes of a draw: the success flag and the backtrack count.\<close>

definition outcome :: "py_error + (draw_result \<times> simulator) \<Rightarrow> py_error + (bool \<times> nat)" where
  "outcome r = map_sum id (\<lambda>(res, s). (is_valid res, dr_backtrack_count res)) r"

text \<open>Four entrants, two pairs of which share a name (but not a country).\<close>

definition same_names :: simulator where
  "same_names =
     load_clubs (Some [mk ''B'' ''Z'' 1, mk ''B'' ''X'' 2, mk ''A'' ''Y'' 3, mk ''A'' ''X'' 4])
       (new_simulator CHAMPIONS_LEAGUE [])"

text \<open>Conference League simulators: one club in pot 5, and two clubs in pots 1 and 2.\<close>

definition conference_pot5 :: simulator where
  "conference_pot5 =
     load_clubs (Some [mk ''A'' ''X'' 5]) (new_simulator CONFERENCE_LEAGUE [])"

definition conference_two :: simulator where
  "conference_two =
     load_clubs (Some [mk ''A'' ''X'' 1, mk ''B'' ''Y'' 2]) (new_simulator CONFERENCE_LEAGUE [])"

section \<open>Basic facts\<close>

lemma get0_foldl_count:
  "get0 (foldl (\<lambda>countries opp. countries(snd opp \<mapsto> get0 countries (snd opp) + 1)) m xs) k =
     get0 m k + length (filter (\<lambda>r. snd r = k) xs)"
  by (induction xs arbitrary: m) (auto simp: get0_def)

lemma get0_opponent_countries:
  "get0 (opponent_countries c) k = length (filter (\<lambda>r. snd r = k) (all_opponents c))"
  unfolding opponent_countries_def get0_foldl_count by (simp add: get0_def)

text \<open>\<^verbatim>\<open>can_pair\<close> succeeds exactly when none of its checks fires.\<close>

lemma can_pair_iff:
  "fst (can_pair k c1 c2 as_home) \<longleftrightarrow>
     ref_of c1 \<noteq> ref_of c2 \<and> country c1 \<noteq> country c2 \<and>
     ref_of c2 \<notin> set (all_opponents c1) \<and>
     length (filter (\<lambda>r. snd r = country c2) (all_opponents c1)) < max_same_country k \<and>
     length (filter (\<lambda>r. snd r = country c1) (all_opponents c2)) < max_same_country k \<and>
     (if as_home
      then length (home_opponents c1) < home_matches k \<and>
           length (away_opponents c2) < away_matches k
      else length (away_opponents c1) < away_matches k \<and>
           length (home_opponents c2) < home_matches k)"
  by (auto simp: can_pair_def Let_def get0_opponent_countries)

lemma sim_get_valid_opponents_iff:
  "j \<in> set (sim_get_valid_opponents order i as_home s) \<longleftrightarrow>
     j \<in> set order \<and> \<not> is_complete (clubs s ! j) \<and>
     fst (can_pair (constraints s) (clubs s ! i) (clubs s ! j) as_home) \<and>
     fst (can_pair (constraints s) (clubs s ! j) (clubs s ! i) (\<not> as_home))"
  by (auto simp: sim_get_valid_opponents_def Let_def can_pair_iff)

lemma invalidate_cache_fields [simp]:
  "clubs (invalidate_cache n s) = clubs s"
  "constraints (invalidate_cache n s) = constraints s"
  "competition (invalidate_cache n s) = competition s"
  "backtrack_count (invalidate_cache n s) = backtrack_count s"
  "max_backtrack (invalidate_cache n s) = max_backtrack s"
  "random_state (invalidate_cache n s) = random_state s"
  "events (invalidate_cache n s) = events s"
  by (simp_all add: invalidate_cache_def)

lemma ref_of_add_opponent [simp]: "ref_of (add_opponent h r c) = ref_of c"
  by (simp add: add_opponent_def ref_of_def)

lemma ref_of_drop_opponent [simp]: "ref_of (drop_opponent h r c) = ref_of c"
  by (simp add: drop_opponent_def ref_of_def)

lemma opponents_at_add [simp]:
  "opponents_at h (add_opponent h' r c) =
     (if h = h' then opponents_at h c @ [r] else opponents_at h c)"
  by (auto simp: opponents_at_def add_opponent_def)

lemma drop_add_opponent:
  "r \<notin> set (opponents_at h c) \<Longrightarrow> drop_opponent h r (add_opponent h r c) = c"
  by (auto simp: drop_opponent_def add_opponent_def opponents_at_def remove1_append)

lemma all_opponents_set:
  "set (all_opponents c) = set (opponents_at True c) \<union> set (opponents_at False c)"
  by (simp add: all_opponents_def opponents_at_def)

text \<open>The assign block and the undo block, on two different positions of the club list.\<close>

lemma clubs_make_assignment:
  assumes "i < length (clubs s)" "j < length (clubs s)" "i \<noteq> j"
  shows "clubs (make_assignment i j as_home s) =
           (clubs s)[i := add_opponent as_home (ref_of (clubs s ! j)) (clubs s ! i),
                     j := add_opponent (\<not> as_home) (ref_of (clubs s ! i)) (clubs s ! j)]"
  using assms by (simp add: make_assignment_def Let_def add_opponent_def ref_of_def)

lemma make_assignment_fields [simp]:
  "constraints (make_assignment i j h s) = constraints s"
  "competition (make_assignment i j h s) = competition s"
  "backtrack_count (make_assignment i j h s) = backtrack_count s"
  "max_backtrack (make_assignment i j h s) = max_backtrack s"
  "random_state (make_assignment i j h s) = random_state s"
  "events (make_assignment i j h s) = events s @ [Assigned i j h]"
  "length (clubs (make_assignment i j h s)) = length (clubs s)"
  by (simp_all add: make_assignment_def Let_def)

lemma undo_assignment_Inr:
  assumes "i < length (clubs s)" "j < length (clubs s)" "i \<noteq> j"
  shows "undo_assignment i j as_home s = Inr s' \<longleftrightarrow>
           ref_of (clubs s ! j) \<in> set (opponents_at as_home (clubs s ! i)) \<and>
           ref_of (clubs s ! i) \<in> set (opponents_at (\<not> as_home) (clubs s ! j)) \<and>
           s' = invalidate_cache (name (clubs s ! j)) (invalidate_cache (name (clubs s ! i))
                  (s\<lparr>backtrack_count := backtrack_count s + 1,
                     clubs := (clubs s)
                        [i := drop_opponent as_home (ref_of (clubs s ! j)) (clubs s ! i),
                         j := drop_opponent (\<not> as_home) (ref_of (clubs s ! i)) (clubs s ! j)],
                     events := events s @ [Undone i j as_home]\<rparr>))"
  using assms
  by (auto simp: undo_assignment_def Let_def list_remove_def drop_opponent_def
      opponents_at_def ref_of_def)

text \<open>What the solver knows of a candidate it took from \<^verbatim>\<open>_get_valid_opponents\<close>.\<close>

lemma valid_candidate_facts:
  assumes "j \<in> set (sim_get_valid_opponents order i as_home s)"
  shows "ref_of (clubs s ! i) \<noteq> ref_of (clubs s ! j)"
    and "i \<noteq> j"
    and "ref_of (clubs s ! j) \<notin> set (all_opponents (clubs s ! i))"
    and "ref_of (clubs s ! i) \<notin> set (all_opponents (clubs s ! j))"
    and "length (opponents_at as_home (clubs s ! i)) <
           (if as_home then home_matches (constraints s) else away_matches (constraints s))"
    and "length (opponents_at (\<not> as_home) (clubs s ! j)) <
           (if as_home then away_matches (constraints s) else home_matches (constraints s))"
    and "j \<in> set order"
  using assms
  by (auto simp: sim_get_valid_opponents_iff can_pair_iff opponents_at_def split: if_splits)

lemma two_clubs_clubs:
  "clubs two_clubs =
     [\<lparr>name = ''A'', country = ''X'', pot = 1, home_opponents = [], away_opponents = []\<rparr>,
      \<lparr>name = ''B'', country = ''Y'', pot = 2, home_opponents = [], away_opponents = []\<rparr>]"
  "constraints two_clubs = ChampionsLeagueConstraints"
  by (simp_all add: two_clubs_def load_clubs_def new_simulator_def mk_def new_club_def
      constraints_for_def)

lemma two_clubs_candidate: "1 \<in> set (sim_get_valid_opponents [0, 1] 0 True two_clubs)"
  by (simp add: sim_get_valid_opponents_iff two_clubs_clubs can_pair_iff is_complete_def
      ChampionsLeagueConstraints_def ref_of_def all_opponents_def)

section \<open>The candidate filters\<close>

text \<open>
  Claim C3, as amended. The bidirectional filter is the solver's
  \<^verbatim>\<open>_get_valid_opponents\<close>: a club of the pool is returned if and only if it is not
  complete and \<^verbatim>\<open>can_pair\<close> succeeds in both directions. The Constraint Engine's own
  \<^verbatim>\<open>get_valid_opponents\<close> returns the candidates for which the forward check
  \<^verbatim>\<open>can_pair(e, c, r)\<close> succeeds, and applies no reverse check.
\<close>

theorem valid_candidates_iff:
  "(j \<in> set (sim_get_valid_opponents order i as_home s) \<longleftrightarrow>
      j \<in> set order \<and> \<not> is_complete (clubs s ! j) \<and>
      fst (can_pair (constraints s) (clubs s ! i) (clubs s ! j) as_home) \<and>
      fst (can_pair (constraints s) (clubs s ! j) (clubs s ! i) (\<not> as_home))) \<and>
   (c \<in> set (get_valid_opponents k e candidates as_home) \<longleftrightarrow>
      c \<in> set candidates \<and> fst (can_pair k e c as_home))"
  by (simp add: sim_get_valid_opponents_iff get_valid_opponents_def)

text \<open>
  Claim C3 as stated fails for the Constraint Engine's \<^verbatim>\<open>get_valid_opponents\<close>: in the
  one-sided state it returns \<^verbatim>\<open>Test\<close> as a home opponent for \<^verbatim>\<open>Opp\<close> although the
  reverse check \<^verbatim>\<open>can_pair(Test, Opp, False)\<close> fails (already opponents).
\<close>

theorem engine_filter_one_directional:
  "one_sided_test \<in>
     set (get_valid_opponents ChampionsLeagueConstraints one_sided_opp [one_sided_test] True) \<and>
   \<not> fst (can_pair ChampionsLeagueConstraints one_sided_test one_sided_opp False)"
  by (simp add: get_valid_opponents_def can_pair_iff one_sided_opp_def one_sided_test_def
      ChampionsLeagueConstraints_def ref_of_def all_opponents_def)

section \<open>Assign and undo\<close>

text \<open>
  Claim C6, as amended. For every two distinct entrants and either role flag, when the
  second is not yet in the list of the first that the assign block appends to, and the
  first is not yet in the list of the second it appends to (as is the case for every
  candidate the solver assigns), the assign block followed by the undo block succeeds (no
  \<^verbatim>\<open>list.remove\<close> raises), removes the two entries just added, and leaves every club's
  home and away list exactly as it was, contents and order; the backtrack counter has
  grown by one.
\<close>

theorem assign_then_undo_restores:
  assumes i: "i < length (clubs s)" and j: "j < length (clubs s)" and ij: "i \<noteq> j"
    and ni: "ref_of (clubs s ! j) \<notin> set (opponents_at as_home (clubs s ! i))"
    and nj: "ref_of (clubs s ! i) \<notin> set (opponents_at (\<not> as_home) (clubs s ! j))"
  shows "\<exists>s'. undo_assignment i j as_home (make_assignment i j as_home s) = Inr s' \<and>
              clubs s' = clubs s \<and> backtrack_count s' = backtrack_count s + 1"
proof -
  let ?s1 = "make_assignment i j as_home s"
  have c1: "clubs ?s1 =
      (clubs s)[i := add_opponent as_home (ref_of (clubs s ! j)) (clubs s ! i),
                j := add_opponent (\<not> as_home) (ref_of (clubs s ! i)) (clubs s ! j)]"
    by (rule clubs_make_assignment[OF i j ij])
  have ci: "clubs ?s1 ! i = add_opponent as_home (ref_of (clubs s ! j)) (clubs s ! i)"
    using i j ij by (simp add: c1)
  have cj: "clubs ?s1 ! j = add_opponent (\<not> as_home) (ref_of (clubs s ! i)) (clubs s ! j)"
    using i j ij by (simp add: c1)
  have restore:
    "(clubs ?s1)[i := drop_opponent as_home (ref_of (clubs ?s1 ! j)) (clubs ?s1 ! i),
                 j := drop_opponent (\<not> as_home) (ref_of (clubs ?s1 ! i)) (clubs ?s1 ! j)]
       = clubs s"
    using i j ij ni nj
    by (simp add: ci cj drop_add_opponent)
       (simp add: c1 list_update_swap[of i j] list_update_same_conv)
  have len: "i < length (clubs ?s1)" "j < length (clubs ?s1)" using i j by simp_all
  show ?thesis
    unfolding undo_assignment_Inr[OF len ij]
    using restore by (simp add: ci cj)
qed

text \<open>
  The theorem of claim C6 at two clubs of one country whose lists hold earlier opponents,
  the first club playing away: every list comes back with its contents in their order.
\<close>

theorem assign_then_undo_restores_witness:
  "0 < length (clubs listed_clubs) \<and> 1 < length (clubs listed_clubs) \<and> (0::nat) \<noteq> 1 \<and>
   ref_of (clubs listed_clubs ! 1) \<notin> set (opponents_at False (clubs listed_clubs ! 0)) \<and>
   ref_of (clubs listed_clubs ! 0) \<notin> set (opponents_at (\<not> False) (clubs listed_clubs ! 1)) \<and>
   (\<exists>s'. undo_assignment 0 1 False (make_assignment 0 1 False listed_clubs) = Inr s' \<and>
         clubs s' = clubs listed_clubs \<and>
         backtrack_count s' = backtrack_count listed_clubs + 1 \<and>
         opponent_lists (clubs s') =
           [([(''C'', ''Z''), (''D'', ''W'')], [(''E'', ''V'')]),
            ([(''D'', ''W''), (''C'', ''Z'')], [(''F'', ''U'')])])"
proof -
  have a: "0 < length (clubs listed_clubs)" and b: "1 < length (clubs listed_clubs)"
    and c: "(0::nat) \<noteq> 1"
    and d: "ref_of (clubs listed_clubs ! 1) \<notin> set (opponents_at False (clubs listed_clubs ! 0))"
    and e: "ref_of (clubs listed_clubs ! 0) \<notin>
              set (opponents_at (\<not> False) (clubs listed_clubs ! 1))"
    and l: "opponent_lists (clubs listed_clubs) =
              [([(''C'', ''Z''), (''D'', ''W'')], [(''E'', ''V'')]),
               ([(''D'', ''W''), (''C'', ''Z'')], [(''F'', ''U'')])]"
    by (simp_all add: listed_clubs_def opponents_at_def ref_of_def opponent_lists_def)
  from assign_then_undo_restores[OF a b c d e] obtain s' where
    "undo_assignment 0 1 False (make_assignment 0 1 False listed_clubs) = Inr s'"
    "clubs s' = clubs listed_clubs" "backtrack_count s' = backtrack_count listed_clubs + 1"
    by blast
  with a b c d e l show ?thesis by auto
qed

text \<open>
  Claim C6 as stated fails for a pair of distinct entrants that are opponents already:
  \<^verbatim>\<open>list.remove\<close> deletes the older entry, not the one just appended. A's home list
  [B, C] comes back as [C, B], and B's away list [A, D] as [D, A].
\<close>

theorem assign_undo_reorders_listed_pair:
  "opponent_lists (clubs already_listed) =
     [([(''B'', ''Y''), (''C'', ''Z'')], []), ([], [(''A'', ''X''), (''D'', ''W'')])] \<and>
   map_sum id (opponent_lists \<circ> clubs)
     (undo_assignment 0 1 True (make_assignment 0 1 True already_listed)) =
     Inr [([(''C'', ''Z''), (''B'', ''Y'')], []), ([], [(''D'', ''W''), (''A'', ''X'')])]"
  by (simp add: already_listed_def opponent_lists_def undo_assignment_def make_assignment_def
      Let_def list_remove_def ref_of_def)

section \<open>The entrants' invariants\<close>

lemma entrant_inv_add:
  assumes "entrant_inv k c" "r \<noteq> ref_of c" "r \<notin> set (all_opponents c)"
    "length (opponents_at h c) < (if h then home_matches k else away_matches k)"
  shows "entrant_inv k (add_opponent h r c)"
  using assms
  by (auto simp: entrant_inv_def add_opponent_def all_opponents_def opponents_at_def ref_of_def)

lemma entrant_inv_drop:
  assumes "entrant_inv k c"
  shows "entrant_inv k (drop_opponent h r c)"
proof -
  have len: "length (remove1 r xs) \<le> n" if "length xs \<le> n" for xs :: "club_ref list" and n
    using that by (auto simp: length_remove1)
  show ?thesis using assms
    by (auto simp: entrant_inv_def drop_opponent_def all_opponents_def ref_of_def
        intro: len dest: notin_set_remove1)
qed

lemma all_in_update:
  assumes "\<forall>c \<in> set cs. P c" "P a"
  shows "\<forall>c \<in> set (cs[i := a]). P c"
  using assms set_update_subset_insert[of cs i a] by auto

lemma all_in_update2:
  assumes "\<forall>c \<in> set cs. P c" "P a" "P b"
  shows "\<forall>c \<in> set (cs[i := a, j := b]). P c"
  by (intro all_in_update assms)

text \<open>
  Claim C5. In every state reachable from empty opponent lists by the solver's assign
  and undo steps, every entrant satisfies its invariant: it is in neither of its own
  lists, no opponent occurs twice across its two lists, and the lists are no longer than
  the profile's \<^verbatim>\<open>home_matches\<close> and \<^verbatim>\<open>away_matches\<close>.
\<close>

theorem entrant_invariants_reachable:
  assumes "reachable order s"
  shows "\<forall>c \<in> set (clubs s). entrant_inv (constraints s) c"
  using assms
proof (induction rule: reachable.induct)
  case (start s)
  then show ?case by (simp add: entrant_inv_def all_opponents_def)
next
  case (assign s i j as_home)
  note f = valid_candidate_facts[OF assign.hyps(4)]
  have ci: "entrant_inv (constraints s) (clubs s ! i)"
    and cj: "entrant_inv (constraints s) (clubs s ! j)"
    using assign.IH assign.hyps(2,3) by simp_all
  have a: "entrant_inv (constraints s)
             (add_opponent as_home (ref_of (clubs s ! j)) (clubs s ! i))"
    using ci f(1) f(3) f(5) by (intro entrant_inv_add) auto
  have b: "entrant_inv (constraints s)
             (add_opponent (\<not> as_home) (ref_of (clubs s ! i)) (clubs s ! j))"
    using cj f(1) f(4) f(6) by (intro entrant_inv_add) auto
  show ?case
    unfolding clubs_make_assignment[OF assign.hyps(2,3) f(2)] make_assignment_fields
    by (rule all_in_update2[OF assign.IH a b])
next
  case (undo s i j as_home s')
  have ci: "entrant_inv (constraints s) (clubs s ! i)"
    and cj: "entrant_inv (constraints s) (clubs s ! j)"
    using undo.IH undo.hyps(2,3) by simp_all
  from undo.hyps(5)[unfolded undo_assignment_Inr[OF undo.hyps(2,3,4)]]
  have s': "s' = invalidate_cache (name (clubs s ! j)) (invalidate_cache (name (clubs s ! i))
                  (s\<lparr>backtrack_count := backtrack_count s + 1,
                     clubs := (clubs s)
                        [i := drop_opponent as_home (ref_of (clubs s ! j)) (clubs s ! i),
                         j := drop_opponent (\<not> as_home) (ref_of (clubs s ! i)) (clubs s ! j)],
                     events := events s @ [Undone i j as_home]\<rparr>))" by simp
  show ?case unfolding s'
    by (simp del: set_update_subset_insert)
       (rule all_in_update2[OF undo.IH entrant_inv_drop[OF ci] entrant_inv_drop[OF cj]])
qed

text \<open>The theorem of claim C5 at the state after one assignment between two clubs.\<close>

theorem entrant_invariants_reachable_witness:
  "reachable [0, 1] (make_assignment 0 1 True two_clubs) \<and>
   list_all (entrant_inv (constraints (make_assignment 0 1 True two_clubs)))
     (clubs (make_assignment 0 1 True two_clubs))"
proof -
  have a: "0 < length (clubs two_clubs)" and b: "1 < length (clubs two_clubs)"
    by (simp_all add: two_clubs_clubs)
  have "reachable [0, 1] two_clubs"
    by (rule reachable.start) (simp add: two_clubs_clubs)
  then have r: "reachable [0, 1] (make_assignment 0 1 True two_clubs)"
    by (rule reachable.assign[OF _ a b two_clubs_candidate])
  from entrant_invariants_reachable[OF r] r show ?thesis
    by (simp add: list_all_iff)
qed

section \<open>Cache invalidation\<close>

lemma milan_checked_cache:
  "opponent_count_cache milan_checked =
     [(''Milan_0_0'', 2), (''Ajax_0_0'', 4), (''AC Milan_0_0'', 2)]"
  and milan_checked_clubs: "clubs milan_checked = clubs milan_clubs"
  by (simp_all add: milan_checked_def milan_clubs_def load_clubs_def new_simulator_def mk_def
      new_club_def constraints_for_def count_valid_opponents_cached_def Let_def cache_key_def
      str_nat.simps clubs_in_def can_pair_iff is_complete_def needs_home_def needs_away_def
      ChampionsLeagueConstraints_def ref_of_def all_opponents_def)

text \<open>
  Claim C8 fails on the code. After forward checking, the cache holds one entry for each
  of Milan, Ajax and AC Milan. Assigning Milan against Ajax invalidates by the substring
  test \<^verbatim>\<open>club_name in k\<close>, and the entry of the third entrant, AC Milan, is deleted too.
\<close>

theorem invalidation_hits_third_entrant:
  "map fst (opponent_count_cache milan_checked) =
     [''Milan_0_0'', ''Ajax_0_0'', ''AC Milan_0_0''] \<and>
   opponent_count_cache (make_assignment 0 1 True milan_checked) = []"
  by (simp add: milan_checked_cache milan_checked_clubs make_assignment_def Let_def
      invalidate_cache_def milan_clubs_def load_clubs_def new_simulator_def mk_def new_club_def
      sublist_code prefix_code)

section \<open>The fixture list\<close>





section \<open>Shuffles and counters leave the clubs alone\<close>

lemma mset_shuffle_loop:
  "i < length x \<Longrightarrow> mset (fst (shuffle_loop i x g)) = mset x"
proof (induction i arbitrary: x g)
  case 0
  then show ?case by simp
next
  case (Suc i)
  obtain j g' where r: "randbelow (Suc i + 1) g = (j, g')" by (cases "randbelow (Suc i + 1) g")
  have "j < Suc i + 1" using r by (cases g) auto
  then have j: "j < length x" using Suc.prems by simp
  have "mset (x[Suc i := x ! j, j := x ! Suc i]) = mset x"
    using mset_swap[of j x "Suc i"] Suc.prems j by simp
  moreover have "i < length (x[Suc i := x ! j, j := x ! Suc i])" using Suc.prems by simp
  ultimately show ?case using Suc.IH[of "x[Suc i := x ! j, j := x ! Suc i]" g'] r by simp
qed

lemma set_shuffle: "set (fst (shuffle x g)) = set x"
proof (cases x)
  case Nil
  then show ?thesis by (simp add: shuffle_def)
next
  case (Cons a xs)
  then have "mset (fst (shuffle x g)) = mset x"
    unfolding shuffle_def by (intro mset_shuffle_loop) simp
  then show ?thesis by (metis set_mset_mset)
qed

lemma get_valid_opponents_sorted_props:
  assumes "get_valid_opponents_sorted order i d s = (cands, s')"
  shows "set cands = set (sim_get_valid_opponents order i d s)"
    and "clubs s' = clubs s" and "constraints s' = constraints s"
    and "backtrack_count s' = backtrack_count s" and "max_backtrack s' = max_backtrack s"
    and "events s' = events s" and "competition s' = competition s"
proof -
  obtain v g where sh: "shuffle (sim_get_valid_opponents order i d s) (random_state s) = (v, g)"
    by (cases "shuffle (sim_get_valid_opponents order i d s) (random_state s)")
  have v: "set v = set (sim_get_valid_opponents order i d s)"
    using set_shuffle[of "sim_get_valid_opponents order i d s" "random_state s"] sh by simp
  from assms have c: "cands = sort_key (\<lambda>j. count_valid_opponents (constraints s) (clubs s ! j)
                                   (clubs_in order s)) v"
    and s': "s' = s\<lparr>random_state := g\<rparr>"
    by (simp_all add: get_valid_opponents_sorted_def sh)
  show "set cands = set (sim_get_valid_opponents order i d s)" using c v by simp
  show "clubs s' = clubs s" "constraints s' = constraints s"
    "backtrack_count s' = backtrack_count s" "max_backtrack s' = max_backtrack s"
    "events s' = events s" "competition s' = competition s"
    using s' by simp_all
qed

lemma count_cached_props:
  assumes "count_valid_opponents_cached order i s = (v, s')"
  shows "clubs s' = clubs s" and "constraints s' = constraints s"
    and "backtrack_count s' = backtrack_count s" and "max_backtrack s' = max_backtrack s"
    and "events s' = events s" and "competition s' = competition s" and "random_state s' = random_state s"
  using assms by (auto simp: count_valid_opponents_cached_def Let_def split: option.splits)

lemma forward_check_props:
  assumes "forward_check count_valid_opponents_cached order is s = (b, s')"
  shows "clubs s' = clubs s \<and> constraints s' = constraints s \<and>
     backtrack_count s' = backtrack_count s \<and> max_backtrack s' = max_backtrack s \<and>
     events s' = events s \<and> competition s' = competition s \<and> random_state s' = random_state s"
  using assms
proof (induction "is" arbitrary: s)
  case Nil
  then show ?case by simp
next
  case (Cons i rest)
  obtain v s1 where c: "count_valid_opponents_cached order i s = (v, s1)"
    by (cases "count_valid_opponents_cached order i s")
  note p = count_cached_props[OF c]
  show ?case
  proof (cases "v = 0")
    case True
    with Cons.prems c p show ?thesis by simp
  next
    case False
    with Cons.prems c have "forward_check count_valid_opponents_cached order rest s1 = (b, s')" by simp
    from Cons.IH[OF this] p show ?thesis by simp
  qed
qed

lemma min_from_props:
  assumes "min_from count_valid_opponents_cached order best bv is s = (m, s')"
  shows "m \<in> set (best # is) \<and> clubs s' = clubs s \<and> constraints s' = constraints s \<and>
     backtrack_count s' = backtrack_count s \<and> max_backtrack s' = max_backtrack s \<and>
     events s' = events s \<and> competition s' = competition s \<and> random_state s' = random_state s"
  using assms
proof (induction "is" arbitrary: s best bv)
  case Nil
  then show ?case by simp
next
  case (Cons i rest)
  obtain v s1 where c: "count_valid_opponents_cached order i s = (v, s1)"
    by (cases "count_valid_opponents_cached order i s")
  note p = count_cached_props[OF c]
  show ?case
  proof (cases "v < bv")
    case True
    with Cons.prems c have "min_from count_valid_opponents_cached order i v rest s1 = (m, s')" by simp
    from Cons.IH[OF this] p show ?thesis by auto
  next
    case False
    with Cons.prems c have "min_from count_valid_opponents_cached order best bv rest s1 = (m, s')" by simp
    from Cons.IH[OF this] p show ?thesis by auto
  qed
qed

lemma min_by_count_props:
  assumes "min_by_count count_valid_opponents_cached order i0 rest s = (m, s')"
  shows "m \<in> set (i0 # rest) \<and> clubs s' = clubs s \<and> constraints s' = constraints s \<and>
     backtrack_count s' = backtrack_count s \<and> max_backtrack s' = max_backtrack s \<and>
     events s' = events s \<and> competition s' = competition s \<and> random_state s' = random_state s"
proof -
  obtain v s1 where c: "count_valid_opponents_cached order i0 s = (v, s1)"
    by (cases "count_valid_opponents_cached order i0 s")
  with assms have "min_from count_valid_opponents_cached order i0 v rest s1 = (m, s')"
    by (simp add: min_by_count_def)
  from min_from_props[OF this] count_cached_props[OF c] show ?thesis by simp
qed

section \<open>The search keeps its state in order and terminates\<close>

lemma sum_list_update_less:
  fixes f :: "'a \<Rightarrow> nat"
  assumes "i < length xs" "f a < f (xs ! i)"
  shows "sum_list (map f (xs[i := a])) < sum_list (map f xs)"
  using assms
proof (induction xs arbitrary: i)
  case Nil
  then show ?case by simp
next
  case (Cons x xs)
  then show ?case by (cases i) auto
qed

lemma room_add:
  "length (opponents_at h c) < (if h then home_matches k else away_matches k) \<Longrightarrow>
   room k (add_opponent h r c) < room k c"
  by (auto simp: room_def add_opponent_def opponents_at_def)

lemma nth_make_assignment:
  assumes "i < length (clubs s)" "j < length (clubs s)" "i \<noteq> j"
  shows "ref_of (clubs (make_assignment i j d s) ! p) = ref_of (clubs s ! p)"
  using assms by (simp add: clubs_make_assignment nth_list_update)

lemma refs_in_make_assignment:
  assumes "i < length (clubs s)" "j < length (clubs s)" "i \<noteq> j"
  shows "refs_in order (make_assignment i j d s) = refs_in order s"
  by (simp add: refs_in_def nth_make_assignment[OF assms])

lemma make_assignment_good:
  assumes g: "good order s" and i: "i \<in> set order"
    and cand: "j \<in> set (sim_get_valid_opponents order i d s)"
  shows "good order (make_assignment i j d s)" and "slack (make_assignment i j d s) < slack s"
proof -
  note f = valid_candidate_facts[OF cand]
  have il: "i < length (clubs s)" and jl: "j < length (clubs s)"
    using g i f(7) by (auto simp: good_def)
  have ci: "entrant_inv (constraints s) (clubs s ! i)" "set (all_opponents (clubs s ! i)) \<subseteq> refs_in order s"
    and cj: "entrant_inv (constraints s) (clubs s ! j)" "set (all_opponents (clubs s ! j)) \<subseteq> refs_in order s"
    using g il jl by (auto simp: good_def)
  have ri: "ref_of (clubs s ! i) \<in> refs_in order s" and rj: "ref_of (clubs s ! j) \<in> refs_in order s"
    using i f(7) by (auto simp: refs_in_def)
  let ?a = "add_opponent d (ref_of (clubs s ! j)) (clubs s ! i)"
  let ?b = "add_opponent (\<not> d) (ref_of (clubs s ! i)) (clubs s ! j)"
  have a: "entrant_inv (constraints s) ?a"
    using ci(1) f(1) f(3) f(5) by (intro entrant_inv_add) auto
  have b: "entrant_inv (constraints s) ?b"
    using cj(1) f(1) f(4) f(6) by (intro entrant_inv_add) auto
  have sa: "set (all_opponents ?a) \<subseteq> refs_in order s"
    using ci(2) rj by (auto simp: all_opponents_def add_opponent_def)
  have sb: "set (all_opponents ?b) \<subseteq> refs_in order s"
    using cj(2) ri by (auto simp: all_opponents_def add_opponent_def)
  have all: "\<forall>c \<in> set ((clubs s)[i := ?a, j := ?b]).
               entrant_inv (constraints s) c \<and> set (all_opponents c) \<subseteq> refs_in order s"
    using g a b sa sb by (intro all_in_update2) (auto simp: good_def)
  show "good order (make_assignment i j d s)"
    using g all
    by (simp add: good_def refs_in_make_assignment[OF il jl f(2)] clubs_make_assignment[OF il jl f(2)])
  have r1: "room (constraints s) ?a < room (constraints s) (clubs s ! i)"
    using f(5) by (intro room_add) simp
  have r2: "room (constraints s) ?b < room (constraints s) (clubs s ! j)"
    using f(6) by (intro room_add) (cases d; simp)
  have "sum_list (map (room (constraints s)) ((clubs s)[i := ?a, j := ?b]))
          < sum_list (map (room (constraints s)) ((clubs s)[i := ?a]))"
    using jl f(2) r2 by (intro sum_list_update_less) simp_all
  also have "\<dots> < sum_list (map (room (constraints s)) (clubs s))"
    using il r1 by (intro sum_list_update_less)
  finally show "slack (make_assignment i j d s) < slack s"
    by (simp add: slack_def clubs_make_assignment[OF il jl f(2)])
qed

lemma undo_after_same_clubs:
  assumes i: "i < length (clubs s)" and j: "j < length (clubs s)"
    and cand: "j \<in> set (sim_get_valid_opponents order i d s)"
    and same: "clubs t = clubs (make_assignment i j d s)"
  shows "\<exists>t'. undo_assignment i j d t = Inr t' \<and> clubs t' = clubs s \<and>
              constraints t' = constraints t \<and> backtrack_count t' = backtrack_count t + 1 \<and>
              max_backtrack t' = max_backtrack t \<and> competition t' = competition t \<and>
              events t' = events t @ [Undone i j d]"
proof -
  note f = valid_candidate_facts[OF cand]
  have c1: "clubs t =
      (clubs s)[i := add_opponent d (ref_of (clubs s ! j)) (clubs s ! i),
                j := add_opponent (\<not> d) (ref_of (clubs s ! i)) (clubs s ! j)]"
    unfolding same by (rule clubs_make_assignment[OF i j f(2)])
  have ci: "clubs t ! i = add_opponent d (ref_of (clubs s ! j)) (clubs s ! i)"
    using i j f(2) by (simp add: c1)
  have cj: "clubs t ! j = add_opponent (\<not> d) (ref_of (clubs s ! i)) (clubs s ! j)"
    using i j f(2) by (simp add: c1)
  have ni: "ref_of (clubs s ! j) \<notin> set (opponents_at d (clubs s ! i))"
    using f(3) by (cases d) (simp_all add: all_opponents_set)
  have nj: "ref_of (clubs s ! i) \<notin> set (opponents_at (\<not> d) (clubs s ! j))"
    using f(4) by (cases d) (simp_all add: all_opponents_set)
  have restore:
    "(clubs t)[i := drop_opponent d (ref_of (clubs t ! j)) (clubs t ! i),
               j := drop_opponent (\<not> d) (ref_of (clubs t ! i)) (clubs t ! j)] = clubs s"
    using i j f(2) ni nj
    by (simp add: ci cj drop_add_opponent)
       (simp add: c1 list_update_swap[of i j] list_update_same_conv)
  have len: "i < length (clubs t)" "j < length (clubs t)" using i j by (simp_all add: c1)
  show ?thesis
    unfolding undo_assignment_Inr[OF len f(2)]
    using restore by (simp add: ci cj)
qed

lemma good_cong:
  "clubs t = clubs s \<Longrightarrow> constraints t = constraints s \<Longrightarrow> good order t = good order s"
  by (simp add: good_def refs_in_def)

lemma slack_cong:
  "clubs t = clubs s \<Longrightarrow> constraints t = constraints s \<Longrightarrow> slack t = slack s"
  by (simp add: slack_def)

lemma valid_cong:
  "clubs t = clubs s \<Longrightarrow> constraints t = constraints s \<Longrightarrow>
   sim_get_valid_opponents order i d t = sim_get_valid_opponents order i d s"
  by (simp add: sim_get_valid_opponents_def)

lemma solved_cong:
  "clubs t = clubs s \<Longrightarrow> constraints t = constraints s \<Longrightarrow>
   solved order t r s' = solved order s r s'"
  by (simp add: solved_def)

lemma try_candidates_total:
  assumes rec: "\<And>t. good order t \<Longrightarrow> slack t < n \<Longrightarrow> constraints t = k \<Longrightarrow>
                  \<exists>r t'. rec t = Inr (r, t') \<and> solved order t r t'"
    and "good order s" "slack s \<le> n" "constraints s = k" "i \<in> set order"
    and "\<forall>j \<in> set cands. j \<in> set (sim_get_valid_opponents order i d s)"
  shows "\<exists>r s'. try_candidates rec i d cands s = Inr (r, s') \<and> solved order s r s'"
  using assms(2-)
proof (induction cands arbitrary: s)
  case Nil
  then show ?case by (auto simp: solved_def)
next
  case (Cons j rest)
  have cand: "j \<in> set (sim_get_valid_opponents order i d s)" using Cons.prems(5) by simp
  note f = valid_candidate_facts[OF cand]
  have il: "i < length (clubs s)" and jl: "j < length (clubs s)"
    using Cons.prems(1,4) f(7) by (auto simp: good_def)
  let ?t = "make_assignment i j d s"
  have gt: "good order ?t" and st: "slack ?t < n"
    using make_assignment_good[OF Cons.prems(1,4) cand] Cons.prems(2) by simp_all
  have kt: "constraints ?t = k" using Cons.prems(3) by simp
  from rec[OF gt st kt] obtain r t' where rt: "rec ?t = Inr (r, t')" and sol: "solved order ?t r t'"
    by blast
  show ?case
  proof (cases r)
    case True
    with rt sol show ?thesis by (auto simp: solved_def)
  next
    case False
    with sol have same: "clubs t' = clubs ?t" and kt': "constraints t' = constraints s"
      by (simp_all add: solved_def)
    from undo_after_same_clubs[OF il jl cand same]
    obtain t'' where u: "undo_assignment i j d t' = Inr t''" and c: "clubs t'' = clubs s"
      and k'': "constraints t'' = constraints t'" by blast
    have ks: "constraints t'' = constraints s" using k'' kt' by simp
    have "\<exists>r s'. try_candidates rec i d rest t'' = Inr (r, s') \<and> solved order t'' r s'"
      using Cons.prems
      by (intro Cons.IH) (simp_all add: good_cong[OF c ks] slack_cong[OF c ks] valid_cong[OF c ks] ks)
    then show ?thesis using rt False u by (auto simp: solved_cong[OF c ks])
  qed
qed

lemma try_directions_total:
  assumes rec: "\<And>t. good order t \<Longrightarrow> slack t < n \<Longrightarrow> constraints t = k \<Longrightarrow>
                  \<exists>r t'. rec t = Inr (r, t') \<and> solved order t r t'"
    and "good order s" "slack s \<le> n" "constraints s = k" "i \<in> set order"
  shows "\<exists>r s'. try_directions rec order i ds s = Inr (r, s') \<and> solved order s r s'"
  using assms(2-)
proof (induction ds arbitrary: s)
  case Nil
  then show ?case by (auto simp: solved_def)
next
  case (Cons d rest)
  obtain cands s1 where gv: "get_valid_opponents_sorted order i d s = (cands, s1)"
    by (cases "get_valid_opponents_sorted order i d s")
  note p = get_valid_opponents_sorted_props[OF gv]
  have "\<exists>r s2. try_candidates rec i d cands s1 = Inr (r, s2) \<and> solved order s1 r s2"
    using Cons.prems p(1)
    by (intro try_candidates_total[OF rec])
       (simp_all add: good_cong[OF p(2,3)] slack_cong[OF p(2,3)] valid_cong[OF p(2,3)] p(3))
  then obtain r s2 where tc: "try_candidates rec i d cands s1 = Inr (r, s2)"
    and sol: "solved order s r s2" by (auto simp: solved_cong[OF p(2,3)])
  show ?case
  proof (cases r)
    case True
    with gv tc sol show ?thesis by auto
  next
    case False
    with sol have c: "clubs s2 = clubs s" and ks: "constraints s2 = constraints s"
      by (simp_all add: solved_def)
    have "\<exists>r s'. try_directions rec order i rest s2 = Inr (r, s') \<and> solved order s2 r s'"
      using Cons.prems
      by (intro Cons.IH) (simp_all add: good_cong[OF c ks] slack_cong[OF c ks] ks)
    then show ?thesis using gv tc False by (auto simp: solved_cong[OF c ks])
  qed
qed

lemma needs_some:
  assumes "quota_ok k" "entrant_inv k c" "\<not> is_complete c"
  shows "needs_home c > 0 \<or> needs_away c > 0"
  using assms by (auto simp: quota_ok_def entrant_inv_def is_complete_def needs_home_def needs_away_def)

lemma solver_total:
  assumes "good order s" "slack s < n" "quota_ok (constraints s)"
  shows "\<exists>r s'. solver count_valid_opponents_cached n order s = Inr (r, s') \<and> solved order s r s'"
  using assms
proof (induction n arbitrary: s)
  case 0
  then show ?case by simp
next
  case (Suc n)
  let ?cnt = count_valid_opponents_cached
  let ?k = "constraints s"
  have rec: "\<exists>r t'. solver ?cnt n order t = Inr (r, t') \<and> solved order t r t'"
    if "good order t" "slack t < n" "constraints t = ?k" for t
    using Suc.IH[of t] that Suc.prems(3) by simp
  show ?case
  proof (cases "backtrack_count s > max_backtrack s")
    case True
    then show ?thesis by (auto simp: solved_def)
  next
    case budget: False
    show ?thesis
    proof (cases "filter (\<lambda>i. \<not> is_complete (clubs s ! i)) order")
      case Nil
      then have "\<forall>i \<in> set order. is_complete (clubs s ! i)"
        by (simp add: filter_empty_conv)
      with budget Nil Suc.prems(1) show ?thesis by (auto simp: solved_def)
    next
      case (Cons i0 rest)
      obtain b s1 where fc: "forward_check ?cnt order (i0 # rest) s = (b, s1)"
        by (cases "forward_check ?cnt order (i0 # rest) s")
      note p1 = forward_check_props[OF fc]
      show ?thesis
      proof (cases b)
        case False
        with budget Cons fc p1 show ?thesis by (auto simp: solved_def)
      next
        case True
        obtain i s2 where mc: "min_by_count ?cnt order i0 rest s1 = (i, s2)"
          by (cases "min_by_count ?cnt order i0 rest s1")
        note p2 = min_by_count_props[OF mc]
        have c: "clubs s2 = clubs s" and ks: "constraints s2 = constraints s"
          using p1 p2 by simp_all
        have "i \<in> set (filter (\<lambda>i. \<not> is_complete (clubs s ! i)) order)"
          using p2 Cons by simp
        then have io: "i \<in> set order" and inc: "\<not> is_complete (clubs s ! i)" by simp_all
        have "i < length (clubs s)" using Suc.prems(1) io by (simp add: good_def)
        then have "entrant_inv ?k (clubs s ! i)" using Suc.prems(1) by (simp add: good_def)
        from needs_some[OF Suc.prems(3) this inc]
        have needs: "needs_home (clubs s2 ! i) > 0 \<or> needs_away (clubs s2 ! i) > 0"
          by (simp add: c)
        have "\<exists>r s'. try_directions (solver ?cnt n order) order i
                 ((if needs_home (clubs s2 ! i) > 0 then [True] else []) @
                  (if needs_away (clubs s2 ! i) > 0 then [False] else [])) s2 = Inr (r, s')
                \<and> solved order s2 r s'"
          using Suc.prems io
          by (intro try_directions_total[where k = ?k and n = n] rec)
             (simp_all add: good_cong[OF c ks] slack_cong[OF c ks] ks)
        then show ?thesis
          using budget Cons fc True mc needs
          by (auto simp: Let_def solved_cong[OF c ks])
      qed
    qed
  qed
qed

section \<open>The backtrack counter\<close>

lemma balanced_refl [simp]: "balanced s s"
  by (simp add: balanced_def)









lemma shuffle_pots_set:
  "set (fst (shuffle_pots ps cs acc g)) =
     set acc \<union> {i. i < length cs \<and> pot (cs ! i) \<in> set ps}"
proof (induction ps arbitrary: acc g)
  case Nil
  then show ?case by simp
next
  case (Cons p ps)
  obtain v g' where sh: "shuffle (filter (\<lambda>i. pot (cs ! i) = p) [0..<length cs]) g = (v, g')"
    by (cases "shuffle (filter (\<lambda>i. pot (cs ! i) = p) [0..<length cs]) g")
  have v: "set v = {i. i < length cs \<and> pot (cs ! i) = p}"
    using set_shuffle[of "filter (\<lambda>i. pot (cs ! i) = p) [0..<length cs]" g] sh by auto
  show ?case using Cons.IH[of "acc @ v" g'] sh v by auto
qed

lemma prepare_draw_fields:
  "backtrack_count (prepare_draw sim) = 0" "events (prepare_draw sim) = []"
  "constraints (prepare_draw sim) = constraints sim"
  "\<forall>c \<in> set (clubs (prepare_draw sim)). home_opponents c = [] \<and> away_opponents c = []"
  "clubs sim \<noteq> [] \<Longrightarrow> map pot (clubs (prepare_draw sim)) = map pot (clubs sim)"
  by (auto simp: prepare_draw_def Let_def load_clubs_def reset_def)






section \<open>Draws that cannot succeed\<close>

lemma room_le: "room k c \<le> home_matches k + away_matches k"
  by (simp add: room_def)

lemma sum_list_bound:
  fixes f :: "'a \<Rightarrow> nat"
  assumes "\<And>x. f x \<le> b"
  shows "sum_list (map f xs) \<le> length xs * b"
  by (induction xs) (auto intro: add_mono assms)

lemma slack_le: "slack s \<le> length (clubs s) * (home_matches (constraints s) + away_matches (constraints s))"
  unfolding slack_def by (rule sum_list_bound) (rule room_le)

lemma good_empty_lists:
  assumes "\<forall>c \<in> set (clubs s). home_opponents c = [] \<and> away_opponents c = []"
    and "\<forall>i \<in> set order. i < length (clubs s)"
  shows "good order s"
  using assms by (auto simp: good_def entrant_inv_def all_opponents_def)

lemma draw_total:
  assumes q: "quota_ok (constraints sim)"
    and d: "length (clubs (prepare_draw sim)) *
              (home_matches (constraints sim) + away_matches (constraints sim)) < depth"
  shows "\<exists>res s' order.
           draw depth sim = Inr (res, s') \<and>
           set order = {i. i < length (clubs (prepare_draw sim)) \<and>
                           pot (clubs (prepare_draw sim) ! i) \<in> {1, 2, 3, 4}} \<and>
           solved order (prepare_draw sim) (is_valid res) s'"
proof -
  let ?p = "prepare_draw sim"
  obtain order g where sp: "shuffle_pots [1, 2, 3, 4] (clubs ?p) [] (random_state ?p) = (order, g)"
    by (cases "shuffle_pots [1, 2, 3, 4] (clubs ?p) [] (random_state ?p)")
  let ?q = "?p\<lparr>random_state := g\<rparr>"
  have so: "set order = {i. i < length (clubs ?p) \<and> pot (clubs ?p ! i) \<in> {1, 2, 3, 4}}"
    using shuffle_pots_set[of "[1, 2, 3, 4]" "clubs ?p" "[]" "random_state ?p"] sp by auto
  have g: "good order ?q"
    using prepare_draw_fields(4)[of sim] so by (intro good_empty_lists) auto
  have sl: "slack ?q < depth"
    using slack_le[of ?q] d by (simp add: prepare_draw_fields)
  have qq: "quota_ok (constraints ?q)" using q by (simp add: prepare_draw_fields)
  from solver_total[OF g sl qq] obtain r s' where
    sol: "solver count_valid_opponents_cached depth order ?q = Inr (r, s')"
    and sv: "solved order ?q r s'" by blast
  have dwb: "draw_with_backtracking count_valid_opponents_cached depth ?p = Inr (r, s')"
    using sol by (simp add: draw_with_backtracking_def sp del: shuffle_pots.simps)
  have sv': "solved order ?p r s'" using sv by (simp add: solved_def)
  show ?thesis
    using dwb so sv' by (auto simp: draw_def draw_with_def)
qed

lemma pots_present:
  assumes "clubs sim = [] \<or> (\<exists>c \<in> set (clubs sim). 1 \<le> pot c \<and> pot c \<le> 4)"
  shows "\<exists>i < length (clubs (prepare_draw sim)). pot (clubs (prepare_draw sim) ! i) \<in> {1, 2, 3, 4}"
proof (cases "clubs sim = []")
  case True
  then have "0 < length (clubs (prepare_draw sim)) \<and> pot (clubs (prepare_draw sim) ! 0) = 1"
    by (simp add: prepare_draw_def load_clubs_def get_default_clubs_def mk_def new_club_def reset_def)
  then show ?thesis by blast
next
  case False
  with assms obtain c where c: "c \<in> set (clubs sim)" "1 \<le> pot c" "pot c \<le> 4" by blast
  then obtain i where i: "i < length (clubs sim)" "clubs sim ! i = c"
    by (auto simp: in_set_conv_nth)
  have m: "map pot (clubs (prepare_draw sim)) = map pot (clubs sim)"
    by (rule prepare_draw_fields(5)[OF False])
  have l: "length (clubs (prepare_draw sim)) = length (clubs sim)"
    using m by (metis length_map)
  have "pot (clubs (prepare_draw sim) ! i) = pot c"
    using m i l by (metis nth_map)
  moreover have "pot c \<in> {1, 2, 3, 4}" using c(2,3) by auto
  ultimately show ?thesis using i l by auto
qed

text \<open>
  Claim C2, as amended. On a simulator whose profile sets \<^verbatim>\<open>home_matches\<close> or
  \<^verbatim>\<open>away_matches\<close> below 4 (the Conference League profile, 3 and 3), \<^verbatim>\<open>draw\<close> returns
  a result with \<^verbatim>\<open>is_valid = False\<close> for every entrant list that has a club in one of
  the pots 1 to 4, and for the empty list, for which the default clubs are loaded. The
  recursion limit must exceed the number of free slots.
\<close>

theorem short_quota_never_valid:
  assumes quota: "home_matches (constraints sim) < 4 \<or> away_matches (constraints sim) < 4"
    and pots: "clubs sim = [] \<or> (\<exists>c \<in> set (clubs sim). 1 \<le> pot c \<and> pot c \<le> 4)"
    and depth: "length (clubs (prepare_draw sim)) *
              (home_matches (constraints sim) + away_matches (constraints sim)) < depth"
  shows "\<exists>res s'. draw depth sim = Inr (res, s') \<and> \<not> is_valid res"
proof -
  have q: "quota_ok (constraints sim)" using quota by (auto simp: quota_ok_def)
  from draw_total[OF q depth] obtain res s' order where
    dr: "draw depth sim = Inr (res, s')"
    and so: "set order = {i. i < length (clubs (prepare_draw sim)) \<and>
                           pot (clubs (prepare_draw sim) ! i) \<in> {1, 2, 3, 4}}"
    and sv: "solved order (prepare_draw sim) (is_valid res) s'" by blast
  from pots_present[OF pots] so obtain i where i: "i \<in> set order" by auto
  have "\<not> is_valid res"
  proof
    assume "is_valid res"
    with sv have g: "good order s'" and c: "is_complete (clubs s' ! i)"
      and k: "constraints s' = constraints sim"
      using i by (auto simp: solved_def prepare_draw_fields)
    from g i have "entrant_inv (constraints s') (clubs s' ! i)" by (auto simp: good_def)
    with c k quota show False by (auto simp: entrant_inv_def is_complete_def)
  qed
  with dr show ?thesis by blast
qed

text \<open>The theorem of claim C2 at a Conference League simulator with two clubs.\<close>

theorem short_quota_never_valid_witness:
  "(home_matches (constraints conference_two) < 4 \<or>
    away_matches (constraints conference_two) < 4) \<and>
   (clubs conference_two = [] \<or> (\<exists>c \<in> set (clubs conference_two). 1 \<le> pot c \<and> pot c \<le> 4)) \<and>
   length (clubs (prepare_draw conference_two)) *
     (home_matches (constraints conference_two) + away_matches (constraints conference_two))
     < 1000 \<and>
   (\<exists>res s'. draw 1000 conference_two = Inr (res, s') \<and> \<not> is_valid res)"
proof -
  have a: "home_matches (constraints conference_two) < 4 \<or>
           away_matches (constraints conference_two) < 4"
    and b: "clubs conference_two = [] \<or>
            (\<exists>c \<in> set (clubs conference_two). 1 \<le> pot c \<and> pot c \<le> 4)"
    and c: "length (clubs (prepare_draw conference_two)) *
              (home_matches (constraints conference_two) +
               away_matches (constraints conference_two)) < 1000"
    by (simp_all add: conference_two_def load_clubs_def new_simulator_def mk_def new_club_def
        constraints_for_def ConferenceLeagueConstraints_def prepare_draw_def)
  from short_quota_never_valid[OF a b c] a b c show ?thesis by blast
qed

text \<open>
  Claim C2 as stated fails: a Conference League draw over an entrant list whose only
  club is in pot 5 works on no club at all and returns \<^verbatim>\<open>is_valid = True\<close>.
\<close>

theorem conference_pot5_is_valid: "outcome (draw 1000 conference_pot5) = Inr (True, 0)"
  by code_simp

text \<open>
  Claim C4, as amended. \<^verbatim>\<open>draw\<close> has no validation step: malformed input is handed to
  the backtracking search. For an entrant list of fewer than nine clubs (at least one of
  them in the pots 1 to 4), under every profile with quotas of at most 4, the search
  terminates and \<^verbatim>\<open>draw\<close> reports \<^verbatim>\<open>is_valid = False\<close>, as it does for an exhausted
  search.
\<close>

theorem few_entrants_fail_in_search:
  assumes quota: "home_matches (constraints sim) \<le> 4" "away_matches (constraints sim) \<le> 4"
    and few: "clubs sim \<noteq> []" "length (clubs sim) < 9"
    and pots: "\<exists>c \<in> set (clubs sim). 1 \<le> pot c \<and> pot c \<le> 4"
    and depth: "64 < depth"
  shows "\<exists>res s'. draw depth sim = Inr (res, s') \<and> \<not> is_valid res"
proof -
  let ?p = "prepare_draw sim"
  have q: "quota_ok (constraints sim)" using quota by (auto simp: quota_ok_def)
  have l: "length (clubs ?p) = length (clubs sim)"
    using prepare_draw_fields(5)[OF few(1)] by (metis length_map)
  have "length (clubs ?p) * (home_matches (constraints sim) + away_matches (constraints sim)) \<le> 8 * 8"
    using quota few(2) l by (intro mult_mono) simp_all
  then have d: "length (clubs ?p) *
              (home_matches (constraints sim) + away_matches (constraints sim)) < depth"
    using depth by simp
  from draw_total[OF q d] obtain res s' order where
    dr: "draw depth sim = Inr (res, s')"
    and so: "set order = {i. i < length (clubs ?p) \<and> pot (clubs ?p ! i) \<in> {1, 2, 3, 4}}"
    and sv: "solved order ?p (is_valid res) s'" by blast
  from pots_present[of sim] pots so obtain i where i: "i \<in> set order" by auto
  have "card (set order) \<le> card {..<length (clubs ?p)}"
    using so by (intro card_mono) auto
  then have co: "card (set order) < 9" using l few(2) by simp
  have "\<not> is_valid res"
  proof
    assume "is_valid res"
    with sv have g: "good order s'" and c: "is_complete (clubs s' ! i)"
      using i by (auto simp: solved_def)
    let ?c = "clubs s' ! i"
    from g i have il: "i < length (clubs s')" by (auto simp: good_def)
    with g have inv: "entrant_inv (constraints s') ?c"
      and sub: "set (all_opponents ?c) \<subseteq> refs_in order s'" by (auto simp: good_def)
    have len: "length (all_opponents ?c) = 8" using c by (simp add: is_complete_def all_opponents_def)
    have "card (set (all_opponents ?c)) = 8"
      using inv len by (simp add: entrant_inv_def distinct_card)
    moreover have "ref_of ?c \<notin> set (all_opponents ?c)" using inv by (simp add: entrant_inv_def)
    ultimately have c9: "card (insert (ref_of ?c) (set (all_opponents ?c))) = 9" by simp
    have "ref_of ?c \<in> refs_in order s'" using i by (auto simp: refs_in_def)
    with sub have "insert (ref_of ?c) (set (all_opponents ?c)) \<subseteq> refs_in order s'" by simp
    then have "9 \<le> card (refs_in order s')"
      using c9 card_mono[of "refs_in order s'" "insert (ref_of ?c) (set (all_opponents ?c))"]
      by (simp add: refs_in_def)
    moreover have "card (refs_in order s') \<le> card (set order)"
      unfolding refs_in_def by (rule card_image_le) simp
    ultimately show False using co by simp
  qed
  with dr show ?thesis by blast
qed

text \<open>The theorem of claim C4 at the Champions League draw of two clubs.\<close>

theorem few_entrants_fail_in_search_witness:
  "home_matches (constraints two_clubs) \<le> 4 \<and> away_matches (constraints two_clubs) \<le> 4 \<and>
   clubs two_clubs \<noteq> [] \<and> length (clubs two_clubs) < 9 \<and>
   (\<exists>c \<in> set (clubs two_clubs). 1 \<le> pot c \<and> pot c \<le> 4) \<and> (64::nat) < 1000 \<and>
   (\<exists>res s'. draw 1000 two_clubs = Inr (res, s') \<and> \<not> is_valid res)"
proof -
  have a: "home_matches (constraints two_clubs) \<le> 4" "away_matches (constraints two_clubs) \<le> 4"
    and b: "clubs two_clubs \<noteq> []" "length (clubs two_clubs) < 9"
    and c: "\<exists>c \<in> set (clubs two_clubs). 1 \<le> pot c \<and> pot c \<le> 4"
    and d: "(64::nat) < 1000"
    by (simp_all add: two_clubs_clubs ChampionsLeagueConstraints_def)
  from few_entrants_fail_in_search[OF a b c d] a b c d show ?thesis by blast
qed

text \<open>
  Claim C4 as stated fails: with two entrants, far fewer than the profile requires,
  \<^verbatim>\<open>draw\<close> enters the search and returns an ordinary failed result after two
  backtracks.
\<close>

theorem two_clubs_enter_search: "outcome (draw 1000 two_clubs) = Inr (False, 2)"
  by code_simp

section \<open>The cache changes the search\<close>

lemma same_names_cached: "outcome (draw 1000 same_names) = Inr (False, 38)"
  by code_simp

lemma same_names_uncached: "outcome (draw_uncached 1000 same_names) = Inr (False, 12)"
  by code_simp

text \<open>
  Claim C1 fails on the code. The cache key is built from the club's name and its two
  list lengths, so the two clubs named B (and the two named A) share one entry: the
  solver with the cache sees the count 6 for each club and starts with the first club,
  the solver without it sees 6, 4, 6, 4 and starts with the second. Both draws fail,
  after 38 backtracks with the cache and after 12 without.
\<close>

theorem cache_changes_backtrack_count:
  "outcome (draw 1000 same_names) = Inr (False, 38) \<and>
   outcome (draw_uncached 1000 same_names) = Inr (False, 12)"
  using same_names_cached same_names_uncached by simp

section \<open>Determinism of the draw\<close>

text \<open>
  A search that returns under one recursion limit returns the same under every larger
  one.
\<close>

lemma try_candidates_mono:
  assumes rec: "\<And>t y. rec t = Inr y \<Longrightarrow> rec' t = Inr y"
    and "try_candidates rec i d cands s = Inr x"
  shows "try_candidates rec' i d cands s = Inr x"
  using assms(2)
proof (induction cands arbitrary: s)
  case Nil
  then show ?case by simp
next
  case (Cons j rest)
  show ?case
  proof (cases "rec (make_assignment i j d s)")
    case (Inl e)
    with Cons.prems show ?thesis by simp
  next
    case (Inr p)
    obtain r t where p: "p = (r, t)" by (cases p)
    have r': "rec' (make_assignment i j d s) = Inr (r, t)" using rec Inr p by simp
    show ?thesis
    proof (cases r)
      case True
      from Cons.prems Inr p True have "x = (True, t)" by simp
      then show ?thesis using r' True by simp
    next
      case False
      show ?thesis
      proof (cases "undo_assignment i j d t")
        case (Inl e)
        with Cons.prems Inr p False show ?thesis by simp
      next
        case u: (Inr t')
        from Cons.prems Inr p False u have "try_candidates rec i d rest t' = Inr x" by simp
        from Cons.IH[OF this] show ?thesis using r' False u by simp
      qed
    qed
  qed
qed

lemma try_directions_mono:
  assumes rec: "\<And>t y. rec t = Inr y \<Longrightarrow> rec' t = Inr y"
    and "try_directions rec order i ds s = Inr x"
  shows "try_directions rec' order i ds s = Inr x"
  using assms(2)
proof (induction ds arbitrary: s)
  case Nil
  then show ?case by simp
next
  case (Cons d rest)
  obtain cands s1 where g: "get_valid_opponents_sorted order i d s = (cands, s1)"
    by (cases "get_valid_opponents_sorted order i d s")
  show ?case
  proof (cases "try_candidates rec i d cands s1")
    case (Inl e)
    with Cons.prems g show ?thesis by simp
  next
    case (Inr p)
    obtain r t where p: "p = (r, t)" by (cases p)
    have c': "try_candidates rec' i d cands s1 = Inr (r, t)"
      using try_candidates_mono[OF rec] Inr p by simp
    show ?thesis
    proof (cases r)
      case True
      from Cons.prems g Inr p True have "x = (True, t)" by simp
      then show ?thesis using g c' True by simp
    next
      case False
      with Cons.prems g Inr p have "try_directions rec order i rest t = Inr x" by simp
      from Cons.IH[OF this] show ?thesis using g c' False by simp
    qed
  qed
qed

lemma solver_mono:
  assumes "solver cnt d order s = Inr x" "d \<le> d'"
  shows "solver cnt d' order s = Inr x"
  using assms
proof (induction d arbitrary: s d' x)
  case 0
  then show ?case by simp
next
  case (Suc d)
  then obtain e where d': "d' = Suc e" and le: "d \<le> e" by (cases d') auto
  have rec: "\<And>t y. solver cnt d order t = Inr y \<Longrightarrow> solver cnt e order t = Inr y"
    using Suc.IH le by blast
  show ?case
  proof (cases "backtrack_count s > max_backtrack s")
    case True
    with Suc.prems(1) show ?thesis by (simp add: d')
  next
    case nb: False
    show ?thesis
    proof (cases "filter (\<lambda>i. \<not> is_complete (clubs s ! i)) order")
      case Nil
      with Suc.prems(1) nb show ?thesis by (simp add: d')
    next
      case (Cons i0 rest)
      obtain ok s1 where fc: "forward_check cnt order (i0 # rest) s = (ok, s1)"
        by (cases "forward_check cnt order (i0 # rest) s")
      show ?thesis
      proof (cases ok)
        case False
        from Suc.prems(1) nb Cons fc False have "x = (False, s1)"
          by (simp del: forward_check.simps)
        then show ?thesis using nb Cons fc False by (simp add: d' del: forward_check.simps)
      next
        case True
        obtain i s2 where mb: "min_by_count cnt order i0 rest s1 = (i, s2)"
          by (cases "min_by_count cnt order i0 rest s1")
        show ?thesis
        proof (cases "\<not> needs_home (clubs s2 ! i) > 0 \<and> \<not> needs_away (clubs s2 ! i) > 0")
          case t: True
          with Suc.prems(1) nb Cons fc True mb have "solver cnt d order s2 = Inr x"
            by (simp del: forward_check.simps)
          from rec[OF this] show ?thesis using nb Cons fc True mb t
            by (simp add: d' del: forward_check.simps)
        next
          case f: False
          with Suc.prems(1) nb Cons fc True mb
          have "try_directions (solver cnt d order) order i
                  ((if needs_home (clubs s2 ! i) > 0 then [True] else []) @
                   (if needs_away (clubs s2 ! i) > 0 then [False] else [])) s2 = Inr x"
            by (simp del: try_directions.simps forward_check.simps)
          from try_directions_mono[of "solver cnt d order" "solver cnt e order", OF rec this]
          show ?thesis using nb Cons fc True mb f
            by (auto simp add: d' Let_def simp del: try_directions.simps forward_check.simps)
        qed
      qed
    qed
  qed
qed

lemma draw_mono:
  assumes "draw d s = Inr x" "d \<le> d'"
  shows "draw d' s = Inr x"
proof -
  let ?p = "prepare_draw s"
  obtain order g where sp: "shuffle_pots [1, 2, 3, 4] (clubs ?p) [] (random_state ?p) = (order, g)"
    by (cases "shuffle_pots [1, 2, 3, 4] (clubs ?p) [] (random_state ?p)")
  have dwb: "draw_with_backtracking count_valid_opponents_cached n ?p =
               solver count_valid_opponents_cached n order (?p\<lparr>random_state := g\<rparr>)" for n
    by (simp add: draw_with_backtracking_def sp del: shuffle_pots.simps)
  show ?thesis
  proof (cases "solver count_valid_opponents_cached d order (?p\<lparr>random_state := g\<rparr>)")
    case (Inl e)
    with assms(1) dwb show ?thesis by (simp add: draw_def draw_with_def)
  next
    case (Inr y)
    from solver_mono[OF Inr assms(2)] Inr assms(1) show ?thesis
      by (simp add: draw_def draw_with_def dwb)
  qed
qed

lemma entrants_length:
  "length (clubs (prepare_draw (load_clubs data sim))) = length (entrants data)"
  by (simp add: prepare_draw_def load_clubs_def entrants_def Let_def split: option.splits)

lemma constraints_for_quota:
  "quota_ok (constraints_for league)"
  "home_matches (constraints_for league) + away_matches (constraints_for league) \<le> 8"
  by (cases league; simp add: constraints_for_def quota_ok_def ChampionsLeagueConstraints_def
      EuropaLeagueConstraints_def ConferenceLeagueConstraints_def)+

lemma run_draw_seeded:
  "run_draw prng league (Some n) budget data depth g =
     draw depth (load_clubs data ((new_simulator league (prng n))\<lparr>max_backtrack := budget\<rparr>))"
  by (simp add: run_draw_def UEFADrawSimulator_def)

lemma nine_clubs_pairings:
  "pairings (run_draw counting_prng CHAMPIONS_LEAGUE (Some 999) 50000 (Some nine_clubs) 100 []) =
     Inr (True,
       [([''B'', ''E'', ''G'', ''F''], [''C'', ''H'', ''I'', ''D'']),
        ([''F'', ''H'', ''D'', ''C''], [''I'', ''E'', ''A'', ''G'']),
        ([''A'', ''E'', ''G'', ''F''], [''B'', ''H'', ''I'', ''D'']),
        ([''C'', ''A'', ''G'', ''F''], [''B'', ''H'', ''I'', ''E'']),
        ([''B'', ''D'', ''I'', ''H''], [''C'', ''A'', ''F'', ''G'']),
        ([''I'', ''G'', ''H'', ''E''], [''B'', ''C'', ''A'', ''D'']),
        ([''B'', ''I'', ''H'', ''E''], [''C'', ''A'', ''D'', ''F'']),
        ([''C'', ''A'', ''D'', ''I''], [''B'', ''F'', ''G'', ''E'']),
        ([''B'', ''C'', ''A'', ''D''], [''F'', ''G'', ''E'', ''H''])])"
  by code_simp

text \<open>
  Claim C9. A run constructs the simulator with the seed (which seeds the process-wide
  generator, whatever its state was), sets the backtrack budget, loads the clubs and calls
  \<^verbatim>\<open>draw\<close>. For every seeding algorithm, a run whose recursion limit exceeds eight times
  the number of clubs returns a result; and any two runs with the same seed, the same
  clubs in the same order, the same competition and the same budget that return, under
  whatever recursion limits and whatever earlier states of the generator, return the same
  result: the same success flag, backtrack count, fixtures and home and away lists of
  every club, and the same final state of the simulator.
\<close>

theorem draw_deterministic:
  "(8 * length (entrants data) < d \<longrightarrow>
      (\<exists>r t. run_draw prng league (Some n) budget data d g = Inr (r, t))) \<and>
   (run_draw prng league (Some n) budget data d1 g1 = Inr (r1, t1) \<and>
    run_draw prng league (Some n) budget data d2 g2 = Inr (r2, t2) \<longrightarrow>
      r1 = r2 \<and> t1 = t2)"
proof (intro conjI impI)
  let ?sim = "load_clubs data ((new_simulator league (prng n))\<lparr>max_backtrack := budget\<rparr>)"
  assume d: "8 * length (entrants data) < d"
  have k: "constraints ?sim = constraints_for league"
    by (simp add: load_clubs_def new_simulator_def)
  have "length (clubs (prepare_draw ?sim)) *
          (home_matches (constraints ?sim) + away_matches (constraints ?sim))
        \<le> length (entrants data) * 8"
    unfolding k entrants_length by (rule mult_le_mono2) (rule constraints_for_quota(2))
  with d have b: "length (clubs (prepare_draw ?sim)) *
          (home_matches (constraints ?sim) + away_matches (constraints ?sim)) < d" by simp
  have q: "quota_ok (constraints ?sim)" unfolding k by (rule constraints_for_quota(1))
  from draw_total[OF q b] show "\<exists>r t. run_draw prng league (Some n) budget data d g = Inr (r, t)"
    unfolding run_draw_seeded by blast
next
  let ?sim = "load_clubs data ((new_simulator league (prng n))\<lparr>max_backtrack := budget\<rparr>)"
  assume "run_draw prng league (Some n) budget data d1 g1 = Inr (r1, t1) \<and>
          run_draw prng league (Some n) budget data d2 g2 = Inr (r2, t2)"
  then have a: "draw d1 ?sim = Inr (r1, t1)" and b: "draw d2 ?sim = Inr (r2, t2)"
    by (simp_all add: run_draw_seeded)
  from draw_mono[OF a, of "max d1 d2"] draw_mono[OF b, of "max d1 d2"]
  have "(r1, t1) = (r2, t2)" by simp
  then show "r1 = r2" and "t1 = t2" by simp_all
qed

text \<open>
  The theorem of claim C9 at two runs in one process, as in the repository's test
  \<^verbatim>\<open>test_draw_reproducibility\<close>: nine clubs, seed 999; the second simulator is constructed
  when the first draw has used the generator, and runs under another recursion limit.
\<close>

theorem draw_deterministic_witness:
  "\<exists>r t t'.
     run_draw counting_prng CHAMPIONS_LEAGUE (Some 999) 50000 (Some nine_clubs) 100 [] =
       Inr (r, t) \<and>
     8 * length (entrants (Some nine_clubs)) < 1000 \<and>
     run_draw counting_prng CHAMPIONS_LEAGUE (Some 999) 50000 (Some nine_clubs) 1000
       (random_state t) = Inr (r, t') \<and>
     t' = t \<and>
     pairings (Inr (r, t)) = Inr (True,
       [([''B'', ''E'', ''G'', ''F''], [''C'', ''H'', ''I'', ''D'']),
        ([''F'', ''H'', ''D'', ''C''], [''I'', ''E'', ''A'', ''G'']),
        ([''A'', ''E'', ''G'', ''F''], [''B'', ''H'', ''I'', ''D'']),
        ([''C'', ''A'', ''G'', ''F''], [''B'', ''H'', ''I'', ''E'']),
        ([''B'', ''D'', ''I'', ''H''], [''C'', ''A'', ''F'', ''G'']),
        ([''I'', ''G'', ''H'', ''E''], [''B'', ''C'', ''A'', ''D'']),
        ([''B'', ''I'', ''H'', ''E''], [''C'', ''A'', ''D'', ''F'']),
        ([''C'', ''A'', ''D'', ''I''], [''B'', ''F'', ''G'', ''E'']),
        ([''B'', ''C'', ''A'', ''D''], [''F'', ''G'', ''E'', ''H''])])"
proof -
  let ?run = "run_draw counting_prng CHAMPIONS_LEAGUE (Some 999) 50000 (Some nine_clubs)"
  obtain r t where r1: "?run 100 [] = Inr (r, t)"
    using nine_clubs_pairings by (cases "?run 100 []") (auto simp: pairings_def)
  have p: "pairings (Inr (r, t)) = Inr (True,
       [([''B'', ''E'', ''G'', ''F''], [''C'', ''H'', ''I'', ''D'']),
        ([''F'', ''H'', ''D'', ''C''], [''I'', ''E'', ''A'', ''G'']),
        ([''A'', ''E'', ''G'', ''F''], [''B'', ''H'', ''I'', ''D'']),
        ([''C'', ''A'', ''G'', ''F''], [''B'', ''H'', ''I'', ''E'']),
        ([''B'', ''D'', ''I'', ''H''], [''C'', ''A'', ''F'', ''G'']),
        ([''I'', ''G'', ''H'', ''E''], [''B'', ''C'', ''A'', ''D'']),
        ([''B'', ''I'', ''H'', ''E''], [''C'', ''A'', ''D'', ''F'']),
        ([''C'', ''A'', ''D'', ''I''], [''B'', ''F'', ''G'', ''E'']),
        ([''B'', ''C'', ''A'', ''D''], [''F'', ''G'', ''E'', ''H''])])"
    using nine_clubs_pairings r1 by simp
  have l: "8 * length (entrants (Some nine_clubs)) < 1000"
    by (simp add: entrants_def nine_clubs_def)
  note dd = draw_deterministic[of "Some nine_clubs" _ counting_prng CHAMPIONS_LEAGUE 999 50000]
  from dd[of 1000 "random_state t"] l obtain r' t' where
    r2: "?run 1000 (random_state t) = Inr (r', t')" by blast
  from dd[of _ _ 100 "[]" r t 1000 "random_state t" r' t'] r1 r2
  have "r = r'" "t = t'" by blast+
  with r1 r2 p l show ?thesis by blast
qed

end
